theory Spec2Isabelle
  imports Complex_Main "HOL-Library.Sublist"
begin

section \<open>Text: Python strings as lists of code points\<close>

text \<open>
  A Python \<open>str\<close> is a sequence of Unicode code points, and \<open>re\<close>, \<open>str.strip\<close> and
  \<open>str.split\<close> all work on code points. A code point is a natural number here, a string a
  list of them. ASCII literals of the source are written through \<open>ascii\<close>; the four
  non-ASCII characters of the source are named.
\<close>

type_synonym ustr = "nat list"

definition ascii :: "string \<Rightarrow> ustr" where
  "ascii s = map of_char s"

definition plus_minus :: nat where
  "plus_minus = 177"

definition money_bag :: nat where
  "money_bag = 128176"

definition red_envelope :: nat where
  "red_envelope = 129511"

definition gift :: nat where
  "gift = 127873"

text \<open>
  \<open>str.isspace\<close>, which is also what \<open>\s\<close> matches in a \<open>str\<close> pattern and what
  \<open>str.strip()\<close> removes.
\<close>

definition uni_space :: "nat \<Rightarrow> bool" where
  "uni_space c \<longleftrightarrow>
     (9 \<le> c \<and> c \<le> 13) \<or> (28 \<le> c \<and> c \<le> 32) \<or> c = 133 \<or> c = 160 \<or> c = 5760 \<or>
     (8192 \<le> c \<and> c \<le> 8202) \<or> c = 8232 \<or> c = 8233 \<or> c = 8239 \<or> c = 8287 \<or> c = 12288"

text \<open>
  \<open>\d\<close> in a \<open>str\<close> pattern matches the decimal digits of every script (category Nd).
  Each script's digits are ten consecutive code points; the list holds the code point of
  each zero (Unicode 14.0, the table of CPython 3.11).
\<close>

definition decimal_zeros :: "nat list" where
  "decimal_zeros =
    [48, 1632, 1776, 1984, 2406, 2534, 2662, 2790, 2918, 3046, 3174, 3302, 3430, 3558,
     3664, 3792, 3872, 4160, 4240, 6112, 6160, 6470, 6608, 6784, 6800, 6992, 7088, 7232,
     7248, 42528, 43216, 43264, 43472, 43504, 43600, 44016, 65296, 66720, 68912, 69734,
     69872, 69942, 70096, 70384, 70736, 70864, 71248, 71360, 71472, 71904, 72016, 72784,
     73040, 73120, 92768, 92864, 93008, 120782, 120792, 120802, 120812, 120822, 123200,
     123632, 125264, 130032]"

definition uni_decimal :: "nat \<Rightarrow> bool" where
  "uni_decimal c \<longleftrightarrow> list_ex (\<lambda>z. z \<le> c \<and> c \<le> z + 9) decimal_zeros"

section \<open>Regular expressions as the source uses them\<close>

text \<open>
  The four patterns of the source are sequences of character classes, each taken once or
  under a greedy \<open>*\<close> or \<open>+\<close>, some of them inside a capturing group.
\<close>

datatype cclass =
    Lit nat
  | Range nat nat
  | Space
  | Digit
  | Union "cclass list"
  | Neg cclass

fun in_class :: "cclass \<Rightarrow> nat \<Rightarrow> bool" where
  "in_class (Lit a) c \<longleftrightarrow> c = a"
| "in_class (Range lo hi) c \<longleftrightarrow> lo \<le> c \<and> c \<le> hi"
| "in_class Space c \<longleftrightarrow> uni_space c"
| "in_class Digit c \<longleftrightarrow> uni_decimal c"
| "in_class (Union cs) c \<longleftrightarrow> list_ex (\<lambda>k. in_class k c) cs"
| "in_class (Neg k) c \<longleftrightarrow> \<not> in_class k c"

datatype quant = Once | Star | Plus

datatype re_item = Atom cclass quant | Group cclass quant

fun item_class :: "re_item \<Rightarrow> cclass" where
  "item_class (Atom k q) = k"
| "item_class (Group k q) = k"

fun item_quant :: "re_item \<Rightarrow> quant" where
  "item_quant (Atom k q) = q"
| "item_quant (Group k q) = q"

fun is_group :: "re_item \<Rightarrow> bool" where
  "is_group (Atom k q) = False"
| "is_group (Group k q) = True"

fun min_count :: "quant \<Rightarrow> nat" where
  "min_count Once = 1"
| "min_count Star = 0"
| "min_count Plus = 1"

text \<open>
  How many characters a quantified class takes at most at the head of \<open>s\<close>: one for a
  single occurrence, the whole run of class members under \<open>*\<close> and \<open>+\<close>.
\<close>

fun max_count :: "cclass \<Rightarrow> quant \<Rightarrow> ustr \<Rightarrow> nat" where
  "max_count k Once s = min 1 (length (takeWhile (in_class k) s))"
| "max_count k Star s = length (takeWhile (in_class k) s)"
| "max_count k Plus s = length (takeWhile (in_class k) s)"

text \<open>
  The backtracking of a greedy quantifier: try the longest count first, then one less,
  down to the least count allowed, and keep the first that lets the rest match.
\<close>

fun backtrack :: "(nat \<Rightarrow> 'a option) \<Rightarrow> nat \<Rightarrow> nat \<Rightarrow> 'a option" where
  "backtrack f lo 0 = (if lo = 0 then f 0 else None)"
| "backtrack f lo (Suc n) =
     (if Suc n < lo then None
      else case f (Suc n) of Some r \<Rightarrow> Some r | None \<Rightarrow> backtrack f lo n)"

text \<open>
  Matching one item at the head of \<open>s\<close>, with \<open>k\<close> the match of the rest of the pattern.
  The result is the list of captured groups, in order, and the text left after the match.
\<close>

definition match_item ::
  "re_item \<Rightarrow> (ustr \<Rightarrow> (ustr list \<times> ustr) option) \<Rightarrow> ustr \<Rightarrow> (ustr list \<times> ustr) option" where
  "match_item it k s =
     backtrack
       (\<lambda>n. case k (drop n s) of
              None \<Rightarrow> None
            | Some (gs, rest) \<Rightarrow> Some (if is_group it then take n s # gs else gs, rest))
       (min_count (item_quant it))
       (max_count (item_class it) (item_quant it) s)"

primrec re_match :: "re_item list \<Rightarrow> ustr \<Rightarrow> (ustr list \<times> ustr) option" where
  "re_match [] = (\<lambda>s. Some ([], s))"
| "re_match (it # p) = match_item it (re_match p)"

text \<open>\<open>re.search\<close>: the match at the leftmost position that has one.\<close>

fun re_search :: "re_item list \<Rightarrow> ustr \<Rightarrow> (ustr list \<times> ustr) option" where
  "re_search p [] = re_match p []"
| "re_search p (c # cs) =
     (case re_match p (c # cs) of Some r \<Rightarrow> Some r | None \<Rightarrow> re_search p cs)"

text \<open>\<open>match.group(i)\<close>, for \<open>i\<close> from 1.\<close>

definition group :: "ustr list \<times> ustr \<Rightarrow> nat \<Rightarrow> ustr" where
  "group m i = fst m ! (i - 1)"

text \<open>
  \<open>re.sub(p, '', s)\<close>: every match, scanning from the left, is removed; where nothing of
  positive length matches, the character is kept and the scan moves on by one.
\<close>

function re_sub_empty :: "re_item list \<Rightarrow> ustr \<Rightarrow> ustr" where
  "re_sub_empty p [] = []"
| "re_sub_empty p (c # cs) =
     (case re_match p (c # cs) of
        None \<Rightarrow> c # re_sub_empty p cs
      | Some (gs, rest) \<Rightarrow>
          if length rest < length (c # cs) then re_sub_empty p rest
          else c # re_sub_empty p cs)"
  by pat_completeness auto
termination
  by (relation "measure (\<lambda>(p, s). length s)") auto

definition lits :: "ustr \<Rightarrow> re_item list" where
  "lits s = map (\<lambda>c. Atom (Lit c) Once) s"

text \<open>The patterns of \<open>parse_and_format_message\<close>.\<close>

definition tag_re :: "re_item list" where
  \<comment> \<open>\<^verbatim>\<open><[^>]+>\<close>\<close>
  "tag_re = [Atom (Lit 60) Once, Atom (Neg (Lit 62)) Plus, Atom (Lit 62) Once]"

definition amount_re :: "re_item list" where
  \<comment> \<open>\<^verbatim>\<open>\<plusminus>\s*([\d.]+)\s*([A-Za-z0-9]+)\<close>\<close>
  "amount_re =
     [Atom (Lit plus_minus) Once, Atom Space Star, Group (Union [Digit, Lit 46]) Plus,
      Atom Space Star, Group (Union [Range 65 90, Range 97 122, Range 48 57]) Plus]"

definition claim_re :: "re_item list" where
  \<comment> \<open>\<^verbatim>\<open>Claimed:\s*(\d+)\s*/\s*(\d+)\<close>\<close>
  "claim_re =
     lits (ascii ''Claimed:'') @
     [Atom Space Star, Group Digit Plus, Atom Space Star, Atom (Lit 47) Once,
      Atom Space Star, Group Digit Plus]"

definition code_re :: "re_item list" where
  \<comment> \<open>the gift character, then \<^verbatim>\<open>\s*([A-Z0-9]+)\<close>\<close>
  "code_re = [Atom (Lit gift) Once, Atom Space Star, Group (Union [Range 65 90, Range 48 57]) Plus]"

section \<open>The message parser\<close>

text \<open>\<open>text.split("\n")\<close>: the pieces between line feeds, empty ones included.\<close>

fun split_nl :: "ustr \<Rightarrow> ustr list" where
  "split_nl [] = [[]]"
| "split_nl (c # cs) =
     (if c = 10 then [] # split_nl cs
      else case split_nl cs of [] \<Rightarrow> [[c]] | l # ls \<Rightarrow> (c # l) # ls)"

definition strip :: "ustr \<Rightarrow> ustr" where
  "strip s = rev (dropWhile uni_space (rev (dropWhile uni_space s)))"

definition message_lines :: "ustr \<Rightarrow> ustr list" where
  \<comment> \<open>\<^verbatim>\<open>[line.strip() for line in text.split("\n") if line.strip()]\<close>\<close>
  "message_lines text = map strip (filter (\<lambda>line. strip line \<noteq> []) (split_nl text))"

text \<open>The five local variables that the parser extracts before it builds the output.\<close>

record fields =
  code :: ustr
  amount :: ustr
  token :: ustr
  claimed :: ustr
  total :: ustr

definition extract_fields :: "ustr \<Rightarrow> fields option" where
  "extract_fields text0 =
     (let text = re_sub_empty tag_re text0;
          lines = message_lines text
      in if length lines < 3 then None
         else case re_search amount_re (lines ! 0) of
           None \<Rightarrow> None
         | Some match_amount \<Rightarrow>
            (case re_search claim_re (lines ! 1) of
               None \<Rightarrow> None
             | Some match_claim \<Rightarrow>
                (case re_search code_re (lines ! 2) of
                   None \<Rightarrow> None
                 | Some match_code \<Rightarrow>
                     Some \<lparr>code = group match_code 1,
                           amount = group match_amount 1,
                           token = group match_amount 2,
                           claimed = group match_claim 1,
                           total = group match_claim 2\<rparr>)))"

definition format :: "fields \<Rightarrow> ustr" where
  "format r =
     gift # ascii '' Code: '' @ code r @ [10] @
     money_bag # ascii '' Amount: '' @ amount r @ ascii '' '' @ token r @ [10] @
     red_envelope # ascii '' Progress: '' @ claimed r @ ascii '' / '' @ total r @ [10, 10] @
     ascii ''#Binance #RedPacketHub''"

definition parse_and_format_message :: "ustr \<Rightarrow> ustr option" where
  "parse_and_format_message text = map_option format (extract_fields text)"

section \<open>The relay: destinations, the admission decision, the drain loop\<close>

text \<open>
  The settings read from the environment that the relay uses. \<open>source_channels\<close> only
  filters which events reach \<open>handler\<close>, and \<open>port\<close> belongs to the keep-alive server.
\<close>

record config =
  target_channels :: "int list"
  queue_delay :: int
  rate_limit :: int

text \<open>The module's three globals. \<open>time.time()\<close> is a real number of seconds here.\<close>

record state =
  message_queue :: "ustr list"
  is_forwarding :: bool
  last_forward_time :: real

definition initial_state :: state where
  "initial_state = \<lparr>message_queue = [], is_forwarding = False, last_forward_time = 0\<rparr>"

text \<open>
  What a coroutine does to the outside, in order: the calls of \<open>client.send_message\<close>
  (always with \<open>link_preview=False\<close>) and of \<open>asyncio.sleep\<close>, the log lines with the
  values formatted into them, and \<open>client.loop.create_task(process_queue())\<close>.
\<close>

datatype log_line =
    Skipped_hyperlink
  | Skipped_format
  | Queued nat
  | Forwarded int
  | Send_error int ustr

datatype effect =
    Send_message int ustr
  | Sleep int
  | Log_info log_line
  | Log_error log_line
  | Create_task

text \<open>
  What \<open>client.send_message\<close> does is decided outside the program: it returns, or it
  raises an \<open>Exception\<close> whose \<open>str\<close> is carried by \<open>Failed\<close>. An outcome is given for
  each position of the destination list.
\<close>

datatype outcome = Delivered | Failed ustr

datatype py_error = IndexError

fun forward_from :: "ustr \<Rightarrow> (nat \<Rightarrow> outcome) \<Rightarrow> nat \<Rightarrow> int list \<Rightarrow> effect list" where
  "forward_from text out i [] = []"
| "forward_from text out i (channel # rest) =
     (case out i of
        Delivered \<Rightarrow> [Send_message channel text, Log_info (Forwarded channel), Sleep 1]
      | Failed e \<Rightarrow> [Send_message channel text, Log_error (Send_error channel e), Sleep 2])
     @ forward_from text out (Suc i) rest"

definition forward_to_targets :: "config \<Rightarrow> ustr \<Rightarrow> (nat \<Rightarrow> outcome) \<Rightarrow> effect list" where
  "forward_to_targets cfg text out = forward_from text out 0 (target_channels cfg)"

text \<open>Python's \<open>sub in s\<close> on strings.\<close>

fun py_in :: "ustr \<Rightarrow> ustr \<Rightarrow> bool" where
  "py_in sub [] \<longleftrightarrow> sub = []"
| "py_in sub (c # cs) \<longleftrightarrow> prefix sub (c # cs) \<or> py_in sub cs"

definition has_link :: "ustr \<Rightarrow> bool" where
  "has_link raw \<longleftrightarrow>
     py_in (ascii ''http://'') raw \<or> py_in (ascii ''https://'') raw \<or> py_in (ascii ''<a href='') raw"

text \<open>
  \<open>handler\<close> up to its only \<open>await\<close>. The argument is \<open>event.message.message\<close>, which
  may be \<open>None\<close>, and the value \<open>time.time()\<close> returns. The result is the state, the
  effects, and, when the record is being relayed at once, the value of \<open>current\<close> that the
  rest of the function will use.
\<close>

definition handler_start ::
  "config \<Rightarrow> ustr option \<Rightarrow> real \<Rightarrow> (nat \<Rightarrow> outcome) \<Rightarrow> state \<Rightarrow> state \<times> effect list \<times> real option" where
  "handler_start cfg message now out s =
     (let raw = (case message of None \<Rightarrow> [] | Some m \<Rightarrow> m) in
      if has_link raw then (s, [Log_info Skipped_hyperlink], None)
      else case parse_and_format_message raw of
        None \<Rightarrow> (s, [Log_info Skipped_format], None)
      | Some parsed \<Rightarrow>
          if parsed = [] then (s, [Log_info Skipped_format], None)
          else let current = now in
            if \<not> is_forwarding s \<or> current - last_forward_time s > real_of_int (rate_limit cfg)
            then (s, forward_to_targets cfg parsed out, Some current)
            else (s\<lparr>message_queue := message_queue s @ [parsed]\<rparr>,
                  [Log_info (Queued (length (message_queue s @ [parsed])))], None))"

text \<open>\<open>handler\<close> after the \<open>await\<close>.\<close>

definition handler_finish :: "real \<Rightarrow> state \<Rightarrow> state \<times> effect list" where
  "handler_finish current s = (s\<lparr>last_forward_time := current, is_forwarding := True\<rparr>, [Create_task])"

text \<open>\<open>handler\<close> run from start to end with no other task running at its \<open>await\<close>.\<close>

definition handler ::
  "config \<Rightarrow> ustr option \<Rightarrow> real \<Rightarrow> (nat \<Rightarrow> outcome) \<Rightarrow> state \<Rightarrow> state \<times> effect list" where
  "handler cfg message now out s =
     (case handler_start cfg message now out s of
        (s1, es1, None) \<Rightarrow> (s1, es1)
      | (s1, es1, Some current) \<Rightarrow>
          (case handler_finish current s1 of (s2, es2) \<Rightarrow> (s2, es1 @ es2)))"

text \<open>\<open>deque.popleft()\<close>, which raises \<open>IndexError\<close> on an empty deque.\<close>

fun popleft :: "'a list \<Rightarrow> py_error + ('a \<times> 'a list)" where
  "popleft [] = Inl IndexError"
| "popleft (x # xs) = Inr (x, xs)"

text \<open>
  \<open>process_queue\<close> run from start to end with no other task running at its awaits.
  \<open>outs k\<close> gives the outcomes of the sends of the \<open>k\<close>-th relay call.
\<close>

function process_queue ::
  "config \<Rightarrow> (nat \<Rightarrow> nat \<Rightarrow> outcome) \<Rightarrow> state \<Rightarrow> py_error + (state \<times> effect list)" where
  "process_queue cfg outs s =
     (if message_queue s \<noteq> [] then
        (case popleft (message_queue s) of
           Inl e \<Rightarrow> Inl e
         | Inr (msg, rest) \<Rightarrow>
            (case process_queue cfg (\<lambda>k. outs (Suc k)) (s\<lparr>message_queue := rest\<rparr>) of
               Inl e \<Rightarrow> Inl e
             | Inr (s', es) \<Rightarrow>
                 Inr (s', Sleep (queue_delay cfg) # forward_to_targets cfg msg (outs 0) @ es)))
      else Inr (s\<lparr>is_forwarding := False\<rparr>, []))"
  by pat_completeness auto
termination
  by (relation "measure (\<lambda>(cfg, outs, s). length (message_queue s))") (auto elim: popleft.elims)

declare process_queue.simps [simp del]

subsection \<open>Tasks of the event loop\<close>

text \<open>
  The event loop runs one task at a time, and a task gives way only at an \<open>await\<close>. Between
  two awaits a task runs as one block. \<open>process_queue\<close> has two kinds of block: from the
  loop test to the sleep, and from the wake-up through \<open>popleft\<close> to the end of the relay
  call. The relay call reads and writes no global, so its own awaits need no block of
  their own.
\<close>

datatype drain_pc = At_while | At_popleft

fun drain_block ::
  "config \<Rightarrow> (nat \<Rightarrow> outcome) \<Rightarrow> drain_pc \<Rightarrow> state \<Rightarrow> py_error + (state \<times> effect list \<times> drain_pc option)" where
  "drain_block cfg out At_while s =
     (if message_queue s \<noteq> [] then Inr (s, [Sleep (queue_delay cfg)], Some At_popleft)
      else Inr (s\<lparr>is_forwarding := False\<rparr>, [], None))"
| "drain_block cfg out At_popleft s =
     (case popleft (message_queue s) of
        Inl e \<Rightarrow> Inl e
      | Inr (msg, rest) \<Rightarrow>
          Inr (s\<lparr>message_queue := rest\<rparr>, forward_to_targets cfg msg out, Some At_while))"

datatype task =
    Handler_awaits real
  | Drain drain_pc
  | Finished
  | Raised py_error

record system =
  globals :: state
  tasks :: "task list"
  trace :: "effect list"

definition initial_system :: system where
  "initial_system = \<lparr>globals = initial_state, tasks = [], trace = []\<rparr>"

text \<open>
  What the loop can do next: hand a new message to \<open>handler\<close>, which runs to its await,
  or let the task at an index run its next block.
\<close>

datatype event =
    Message "ustr option" real "nat \<Rightarrow> outcome"
  | Resume nat "nat \<Rightarrow> outcome"

fun spawned :: "effect list \<Rightarrow> task list" where
  "spawned [] = []"
| "spawned (Create_task # es) = Drain At_while # spawned es"
| "spawned (e # es) = spawned es"

fun sys_step :: "config \<Rightarrow> system \<Rightarrow> event \<Rightarrow> system" where
  "sys_step cfg sys (Message message now out) =
     (case handler_start cfg message now out (globals sys) of
        (s, es, None) \<Rightarrow> sys\<lparr>globals := s, trace := trace sys @ es\<rparr>
      | (s, es, Some current) \<Rightarrow>
          sys\<lparr>globals := s, tasks := tasks sys @ [Handler_awaits current], trace := trace sys @ es\<rparr>)"
| "sys_step cfg sys (Resume i out) =
     (if i < length (tasks sys) then
        (case tasks sys ! i of
           Handler_awaits current \<Rightarrow>
             (case handler_finish current (globals sys) of
                (s, es) \<Rightarrow>
                  sys\<lparr>globals := s, tasks := (tasks sys)[i := Finished] @ spawned es,
                      trace := trace sys @ es\<rparr>)
         | Drain pc \<Rightarrow>
             (case drain_block cfg out pc (globals sys) of
                Inl e \<Rightarrow> sys\<lparr>tasks := (tasks sys)[i := Raised e]\<rparr>
              | Inr (s, es, None) \<Rightarrow>
                  sys\<lparr>globals := s, tasks := (tasks sys)[i := Finished], trace := trace sys @ es\<rparr>
              | Inr (s, es, Some pc') \<Rightarrow>
                  sys\<lparr>globals := s, tasks := (tasks sys)[i := Drain pc'], trace := trace sys @ es\<rparr>)
         | Finished \<Rightarrow> sys
         | Raised e \<Rightarrow> sys)
      else sys)"

definition run :: "config \<Rightarrow> system \<Rightarrow> event list \<Rightarrow> system" where
  "run cfg sys evs = foldl (sys_step cfg) sys evs"

fun is_drain :: "task \<Rightarrow> bool" where
  "is_drain (Drain pc) = True"
| "is_drain t = False"

definition active_drains :: "system \<Rightarrow> nat" where
  "active_drains sys = length (filter is_drain (tasks sys))"

section \<open>What a pattern matches\<close>

text \<open>
  The language of a pattern, written without reference to the matcher: a string is in it
  when it splits into one run per item, each run made of members of the item's class and
  of a length the quantifier allows.
\<close>

definition run_ok :: "cclass \<Rightarrow> quant \<Rightarrow> ustr \<Rightarrow> bool" where
  "run_ok k q u \<longleftrightarrow>
     list_all (in_class k) u \<and> (case q of Once \<Rightarrow> length u = 1 | Star \<Rightarrow> True | Plus \<Rightarrow> u \<noteq> [])"

fun re_lang :: "re_item list \<Rightarrow> ustr \<Rightarrow> bool" where
  "re_lang [] u \<longleftrightarrow> u = []"
| "re_lang (it # p) u \<longleftrightarrow>
     (\<exists>n\<in>{0..length u}. run_ok (item_class it) (item_quant it) (take n u) \<and> re_lang p (drop n u))"

definition re_occurs :: "re_item list \<Rightarrow> ustr \<Rightarrow> bool" where
  "re_occurs p s \<longleftrightarrow> (\<exists>pre u post. s = pre @ u @ post \<and> re_lang p u)"

text \<open>
  What the second line has to hold, in plain terms: the word \<open>Claimed:\<close>, then digits, a
  slash and digits again, with any whitespace between them.
\<close>

definition claimed_shape :: "ustr \<Rightarrow> bool" where
  "claimed_shape l \<longleftrightarrow>
     (\<exists>pre ws1 d1 ws2 ws3 d2 post.
        l = pre @ ascii ''Claimed:'' @ ws1 @ d1 @ ws2 @ [47] @ ws3 @ d2 @ post \<and>
        list_all uni_space ws1 \<and> list_all uni_space ws2 \<and> list_all uni_space ws3 \<and>
        d1 \<noteq> [] \<and> list_all uni_decimal d1 \<and> d2 \<noteq> [] \<and> list_all uni_decimal d2)"

text \<open>
  What the five extracted fields look like: each is a non-empty run of members of the
  class its pattern captures.
\<close>

definition well_formed :: "fields \<Rightarrow> bool" where
  "well_formed r \<longleftrightarrow>
     run_ok (Union [Range 65 90, Range 48 57]) Plus (code r) \<and>
     run_ok (Union [Digit, Lit 46]) Plus (amount r) \<and>
     run_ok (Union [Range 65 90, Range 97 122, Range 48 57]) Plus (token r) \<and>
     run_ok Digit Plus (claimed r) \<and>
     run_ok Digit Plus (total r)"

section \<open>Reading a trace\<close>

text \<open>The destinations a trace tried to reach, with the text sent, in order.\<close>

fun attempts :: "effect list \<Rightarrow> (int \<times> ustr) list" where
  "attempts [] = []"
| "attempts (Send_message channel text # es) = (channel, text) # attempts es"
| "attempts (e # es) = attempts es"

text \<open>
  What a drain loop does for the messages \<open>msgs\<close>, one after the other: the sleep, then
  the relay call, whose sends get the outcomes \<open>outs k\<close> for the \<open>k\<close>-th message.
\<close>

definition deliveries :: "config \<Rightarrow> (nat \<Rightarrow> nat \<Rightarrow> outcome) \<Rightarrow> ustr list \<Rightarrow> effect list" where
  "deliveries cfg outs msgs =
     concat (map (\<lambda>(k, msg). Sleep (queue_delay cfg) # forward_to_targets cfg msg (outs k))
                 (enumerate 0 msgs))"

text \<open>
  The task at index \<open>i\<close> run for \<open>n\<close> rounds of the drain loop with nothing in between:
  each round is the block up to the sleep and the block after it.
\<close>

definition drain_events :: "nat \<Rightarrow> (nat \<Rightarrow> nat \<Rightarrow> outcome) \<Rightarrow> nat \<Rightarrow> event list" where
  "drain_events i outs n = concat (map (\<lambda>k. [Resume i (outs k), Resume i (outs k)]) [0..<n])"

section \<open>Example messages, settings and schedules\<close>

definition small_message :: ustr where
  "small_message =
     [plus_minus] @ ascii '' 5 USDT'' @ [10] @ ascii ''Claimed: 1 / 2'' @ [10] @
     [gift] @ ascii '' AB12''"

definition small_output :: ustr where
  "small_output =
     [gift] @ ascii '' Code: AB12'' @ [10] @ [money_bag] @ ascii '' Amount: 5 USDT'' @ [10] @
     [red_envelope] @ ascii '' Progress: 1 / 2'' @ [10, 10] @ ascii ''#Binance #RedPacketHub''"

definition second_message :: ustr where
  "second_message =
     [plus_minus] @ ascii '' 7 USDT'' @ [10] @ ascii ''Claimed: 3 / 4'' @ [10] @
     [gift] @ ascii '' CD34''"

definition second_output :: ustr where
  "second_output =
     [gift] @ ascii '' Code: CD34'' @ [10] @ [money_bag] @ ascii '' Amount: 7 USDT'' @ [10] @
     [red_envelope] @ ascii '' Progress: 3 / 4'' @ [10, 10] @ ascii ''#Binance #RedPacketHub''"

definition message_with_link :: ustr where
  "message_with_link =
     [plus_minus] @ ascii '' 5 USDT https://t.me/x'' @ [10] @ ascii ''Claimed: 1 / 2'' @ [10] @
     [gift] @ ascii '' AB12''"

definition tag_across_lines :: ustr where
  "tag_across_lines =
     [plus_minus] @ ascii '' 1 BNB'' @ [10] @
     ascii ''Claimed: 1 / 2 <br'' @ [10] @
     ascii ''>'' @ [gift] @ ascii '' X9''"

definition claimed_without_colon :: ustr where
  "claimed_without_colon =
     [money_bag, 32, plus_minus] @ ascii '' 0.5 BNB'' @ [10] @
     [red_envelope] @ ascii '' Claimed 646 / 711'' @ [10] @
     [gift] @ ascii '' IJAU5UL6''"

definition all_delivered :: "nat \<Rightarrow> outcome" where
  "all_delivered i = Delivered"

definition first_fails :: "nat \<Rightarrow> outcome" where
  "first_fails i = (if i = 0 then Failed (ascii ''flood wait'') else Delivered)"

definition demo_config :: config where
  "demo_config = \<lparr>target_channels = [1], queue_delay = 120, rate_limit = 60\<rparr>"

definition two_targets :: config where
  "two_targets = \<lparr>target_channels = [1, 2], queue_delay = 120, rate_limit = 60\<rparr>"

definition draining :: system where
  "draining =
     \<lparr>globals = \<lparr>message_queue = [ascii ''first'', ascii ''second''], is_forwarding = True,
                 last_forward_time = 1000\<rparr>,
      tasks = [Drain At_while],
      trace = []\<rparr>"

text \<open>
  A schedule that starts an episode: a message is relayed at once at time 1000; a second
  one, handled at time 1010 after the first handler has set the flag and before the new
  drain task has run, is queued; the drain task then finds the queue filled and sleeps.
\<close>

definition episode_start :: "event list" where
  "episode_start =
     [Message (Some small_message) 1000 all_delivered, Resume 0 all_delivered,
      Message (Some small_message) 1010 all_delivered, Resume 1 all_delivered]"

text \<open>A third message 70 seconds after the first, and the rest of its handler.\<close>

definition late_message :: "event list" where
  "late_message = [Message (Some small_message) 1070 all_delivered, Resume 2 all_delivered]"

text \<open>
  The second drain task runs to its sleep, the first wakes, relays the queued message and
  ends, and the second wakes.
\<close>

definition both_wake :: "event list" where
  "both_wake = [Resume 3 all_delivered, Resume 1 all_delivered, Resume 1 all_delivered,
                Resume 3 all_delivered]"

text \<open>
  An episode in which a record arrives while the drain task sleeps: as \<open>episode_start\<close>,
  and a second queued record at time 1020.
\<close>

definition episode_with_arrival :: "event list" where
  "episode_with_arrival =
     [Message (Some small_message) 1000 all_delivered, Resume 0 all_delivered,
      Message (Some small_message) 1010 all_delivered, Resume 1 all_delivered,
      Message (Some second_message) 1020 all_delivered]"

text \<open>
  After \<open>late_message\<close>: the second drain task runs to its sleep; the first wakes, relays
  the first queued record, finds the queue still filled and sleeps again.
\<close>

definition first_drain_round :: "event list" where
  "first_drain_round = [Resume 3 all_delivered, Resume 1 all_delivered, Resume 1 all_delivered]"

text \<open>
  The second drain task wakes, relays the second queued record, finds the queue empty and
  ends; the first wakes.
\<close>

definition second_drain_round :: "event list" where
  "second_drain_round = [Resume 3 all_delivered, Resume 3 all_delivered, Resume 1 all_delivered]"

section \<open>The matcher finds exactly what the patterns describe\<close>

lemma backtrack_SomeD:
  "backtrack f lo hi = Some r \<Longrightarrow> \<exists>n. lo \<le> n \<and> n \<le> hi \<and> f n = Some r"
proof (induction hi)
  case 0
  then show ?case by (auto split: if_splits)
next
  case (Suc hi)
  show ?case
  proof (cases "f (Suc hi)")
    case None
    with Suc.prems have "backtrack f lo hi = Some r" by (auto split: if_splits)
    from Suc.IH [OF this] show ?thesis by (meson le_Suc_eq)
  next
    case (Some a)
    with Suc.prems have "\<not> Suc hi < lo" "a = r" by (auto split: if_splits)
    with Some show ?thesis by (intro exI [of _ "Suc hi"]) simp
  qed
qed

lemma backtrack_None_iff:
  "backtrack f lo hi = None \<longleftrightarrow> (\<forall>n. lo \<le> n \<and> n \<le> hi \<longrightarrow> f n = None)"
proof (induction hi)
  case 0
  then show ?case by auto
next
  case (Suc hi)
  show ?case
  proof (cases "Suc hi < lo")
    case True
    then show ?thesis by auto
  next
    case False
    then have "backtrack f lo (Suc hi) = None \<longleftrightarrow> f (Suc hi) = None \<and> backtrack f lo hi = None"
      by (simp split: option.splits)
    also have "\<dots> \<longleftrightarrow> f (Suc hi) = None \<and> (\<forall>n. lo \<le> n \<and> n \<le> hi \<longrightarrow> f n = None)"
      by (simp only: Suc.IH)
    also have "\<dots> \<longleftrightarrow> (\<forall>n. lo \<le> n \<and> n \<le> Suc hi \<longrightarrow> f n = None)"
    proof -
      have "lo \<le> Suc hi" using False by simp
      then show ?thesis by (metis le_Suc_eq order_refl)
    qed
    finally show ?thesis .
  qed
qed

lemma le_length_takeWhile_iff:
  "n \<le> length (takeWhile P s) \<longleftrightarrow> n \<le> length s \<and> list_all P (take n s)"
proof (induction s arbitrary: n)
  case Nil
  then show ?case by simp
next
  case (Cons c s)
  then show ?case by (cases n) auto
qed

lemma count_range_iff:
  "min_count q \<le> n \<and> n \<le> max_count k q s \<longleftrightarrow> n \<le> length s \<and> run_ok k q (take n s)"
proof (cases q)
  case Once
  show ?thesis
  proof (cases "n = 1")
    case True
    then show ?thesis
      using Once le_length_takeWhile_iff [of 1 "in_class k" s] by (auto simp: run_ok_def)
  next
    case False
    then show ?thesis using Once by (auto simp: run_ok_def)
  qed
next
  case Star
  then show ?thesis by (simp add: run_ok_def le_length_takeWhile_iff)
next
  case Plus
  then show ?thesis by (cases n) (auto simp: run_ok_def le_length_takeWhile_iff)
qed

lemma match_item_SomeD:
  assumes "match_item it k s = Some (gs, rest)"
  shows "\<exists>n gs'. n \<le> length s \<and> run_ok (item_class it) (item_quant it) (take n s) \<and>
           k (drop n s) = Some (gs', rest) \<and> gs = (if is_group it then take n s # gs' else gs')"
proof -
  from assms obtain n where n: "min_count (item_quant it) \<le> n"
      "n \<le> max_count (item_class it) (item_quant it) s"
      "(case k (drop n s) of None \<Rightarrow> None
        | Some (gs, rest) \<Rightarrow> Some (if is_group it then take n s # gs else gs, rest)) = Some (gs, rest)"
    unfolding match_item_def by (blast dest: backtrack_SomeD)
  from n(1,2) have "n \<le> length s \<and> run_ok (item_class it) (item_quant it) (take n s)"
    using count_range_iff [of "item_quant it" n "item_class it" s] by blast
  moreover from n(3) obtain gs' where "k (drop n s) = Some (gs', rest)"
      "gs = (if is_group it then take n s # gs' else gs')"
    by (auto split: option.splits)
  ultimately show ?thesis by blast
qed

lemma match_item_None_iff:
  "match_item it k s = None \<longleftrightarrow>
     (\<forall>n. n \<le> length s \<and> run_ok (item_class it) (item_quant it) (take n s) \<longrightarrow> k (drop n s) = None)"
proof -
  have "(case k (drop n s) of None \<Rightarrow> None
         | Some (gs, rest) \<Rightarrow> Some (if is_group it then take n s # gs else gs, rest)) = None
        \<longleftrightarrow> k (drop n s) = None" for n
    by (simp split: option.splits)
  then show ?thesis
    unfolding match_item_def backtrack_None_iff count_range_iff by simp
qed

lemma re_match_sound:
  "re_match p s = Some (gs, rest) \<Longrightarrow>
     \<exists>n. n \<le> length s \<and> rest = drop n s \<and> re_lang p (take n s)"
proof (induction p arbitrary: s gs)
  case Nil
  then show ?case by (intro exI [of _ 0]) simp
next
  case (Cons it p)
  from Cons.prems have "match_item it (re_match p) s = Some (gs, rest)" by simp
  then obtain n gs' where n: "n \<le> length s" "run_ok (item_class it) (item_quant it) (take n s)"
      "re_match p (drop n s) = Some (gs', rest)"
    by (blast dest: match_item_SomeD)
  from Cons.IH [OF n(3)] obtain m where m: "m \<le> length (drop n s)" "rest = drop m (drop n s)"
      "re_lang p (take m (drop n s))"
    by blast
  have "re_lang (it # p) (take (n + m) s)"
    using n(1,2) m(1,3) by (auto simp: min_def take_add intro!: bexI [of _ n])
  with n(1) m(1,2) show ?case by (intro exI [of _ "n + m"]) (simp add: add.commute)
qed

lemma re_match_complete:
  "n \<le> length s \<Longrightarrow> re_lang p (take n s) \<Longrightarrow> re_match p s \<noteq> None"
proof (induction p arbitrary: s n)
  case Nil
  then show ?case by simp
next
  case (Cons it p)
  from Cons.prems(2) obtain j where j: "j \<le> length (take n s)"
      "run_ok (item_class it) (item_quant it) (take j (take n s))"
      "re_lang p (drop j (take n s))"
    by auto
  from j(1) Cons.prems(1) have jn: "j \<le> n" "j \<le> length s" by simp_all
  from j(2) jn have ok: "run_ok (item_class it) (item_quant it) (take j s)" by (simp add: min_def)
  have "drop j (take n s) = take (n - j) (drop j s)" by (simp add: drop_take)
  with j(3) have "re_lang p (take (n - j) (drop j s))" by simp
  moreover have "n - j \<le> length (drop j s)" using Cons.prems(1) by simp
  ultimately have "re_match p (drop j s) \<noteq> None" by (rule Cons.IH [rotated])
  with jn(2) ok show ?case by (auto simp: match_item_None_iff)
qed

lemma re_search_SomeD:
  "re_search p s = Some r \<Longrightarrow> \<exists>i. i \<le> length s \<and> re_match p (drop i s) = Some r"
proof (induction s)
  case Nil
  then show ?case by simp
next
  case (Cons c s)
  show ?case
  proof (cases "re_match p (c # s)")
    case None
    with Cons.prems have "re_search p s = Some r" by simp
    from Cons.IH [OF this] obtain i where "i \<le> length s" "re_match p (drop i s) = Some r" by blast
    then show ?thesis by (intro exI [of _ "Suc i"]) simp
  next
    case (Some a)
    with Cons.prems show ?thesis by (intro exI [of _ 0]) simp
  qed
qed

lemma re_search_None_iff:
  "re_search p s = None \<longleftrightarrow> (\<forall>i. i \<le> length s \<longrightarrow> re_match p (drop i s) = None)"
proof (induction s)
  case Nil
  then show ?case by simp
next
  case (Cons c s)
  have "(\<forall>i. i \<le> length (c # s) \<longrightarrow> re_match p (drop i (c # s)) = None) \<longleftrightarrow>
        re_match p (c # s) = None \<and> (\<forall>i. i \<le> length s \<longrightarrow> re_match p (drop i s) = None)"
    (is "?L \<longleftrightarrow> ?R")
  proof
    assume l: ?L
    from l [rule_format, of 0] have "re_match p (c # s) = None" by simp
    moreover have "re_match p (drop i s) = None" if "i \<le> length s" for i
      using l [rule_format, of "Suc i"] that by simp
    ultimately show ?R by blast
  next
    assume r: ?R
    show ?L
    proof (intro allI impI)
      fix i assume "i \<le> length (c # s)"
      then show "re_match p (drop i (c # s)) = None" using r by (cases i) auto
    qed
  qed
  with Cons.IH show ?case by (auto split: option.splits)
qed

lemma re_search_iff_occurs: "re_search p s \<noteq> None \<longleftrightarrow> re_occurs p s"
proof
  assume "re_search p s \<noteq> None"
  then obtain gs rest where "re_search p s = Some (gs, rest)" by auto
  then obtain i where i: "i \<le> length s" "re_match p (drop i s) = Some (gs, rest)"
    by (blast dest: re_search_SomeD)
  from re_match_sound [OF i(2)] obtain n where n: "n \<le> length (drop i s)" "rest = drop n (drop i s)"
      "re_lang p (take n (drop i s))"
    by blast
  have "s = take i s @ take n (drop i s) @ drop n (drop i s)"
    by (simp only: append_take_drop_id)
  with n(3) show "re_occurs p s" unfolding re_occurs_def by blast
next
  assume "re_occurs p s"
  then obtain pre u post where s: "s = pre @ u @ post" and u: "re_lang p u"
    unfolding re_occurs_def by blast
  have "re_match p (u @ post) \<noteq> None"
    by (rule re_match_complete [of "length u"]) (use u in simp_all)
  moreover have "drop (length pre) s = u @ post" using s by simp
  moreover have "length pre \<le> length s" using s by simp
  ultimately show "re_search p s \<noteq> None" by (metis re_search_None_iff)
qed

lemma re_lang_ConsD:
  "re_lang (it # p) u \<Longrightarrow>
     \<exists>v w. u = v @ w \<and> run_ok (item_class it) (item_quant it) v \<and> re_lang p w"
  by (metis append_take_drop_id re_lang.simps(2))

lemma re_lang_ConsI:
  "run_ok (item_class it) (item_quant it) v \<Longrightarrow> re_lang p w \<Longrightarrow> re_lang (it # p) (v @ w)"
  by (auto intro!: bexI [of _ "length v"])

lemma re_lang_Cons_iff:
  "re_lang (it # p) u \<longleftrightarrow>
     (\<exists>v w. u = v @ w \<and> run_ok (item_class it) (item_quant it) v \<and> re_lang p w)"
  using re_lang_ConsD re_lang_ConsI by blast

declare re_lang.simps(2) [simp del]

lemma re_lang_lits_iff: "re_lang (lits s @ p) u \<longleftrightarrow> (\<exists>w. u = s @ w \<and> re_lang p w)"
proof (induction s arbitrary: u)
  case Nil
  then show ?case by (simp add: lits_def)
next
  case (Cons c s)
  have lit: "run_ok (Lit c) Once v \<longleftrightarrow> v = [c]" for v
    by (cases v) (auto simp: run_ok_def)
  have "re_lang (lits (c # s) @ p) u \<longleftrightarrow> (\<exists>w. u = [c] @ w \<and> re_lang (lits s @ p) w)"
    unfolding lits_def list.map append_Cons re_lang_Cons_iff
    by (simp add: lit lits_def)
  also have "\<dots> \<longleftrightarrow> (\<exists>w. u = (c # s) @ w \<and> re_lang p w)"
    by (auto simp: Cons.IH)
  finally show ?case .
qed

lemma run_ok_Space_Star: "run_ok Space Star v \<longleftrightarrow> list_all uni_space v"
  by (simp add: run_ok_def list_all_iff)

lemma run_ok_Digit_Plus: "run_ok Digit Plus v \<longleftrightarrow> v \<noteq> [] \<and> list_all uni_decimal v"
  by (auto simp: run_ok_def list_all_iff)

lemma run_ok_Lit_Once: "run_ok (Lit c) Once v \<longleftrightarrow> v = [c]"
  by (cases v) (auto simp: run_ok_def)

lemma claim_re_lang_iff:
  "re_lang claim_re u \<longleftrightarrow>
     (\<exists>ws1 d1 ws2 ws3 d2.
        u = ascii ''Claimed:'' @ ws1 @ d1 @ ws2 @ [47] @ ws3 @ d2 \<and>
        list_all uni_space ws1 \<and> list_all uni_space ws2 \<and> list_all uni_space ws3 \<and>
        d1 \<noteq> [] \<and> list_all uni_decimal d1 \<and> d2 \<noteq> [] \<and> list_all uni_decimal d2)"
  (is "?L \<longleftrightarrow> ?R")
proof
  assume ?L
  then obtain w0 where u: "u = ascii ''Claimed:'' @ w0"
    and w0: "re_lang [Atom Space Star, Group Digit Plus, Atom Space Star, Atom (Lit 47) Once,
                      Atom Space Star, Group Digit Plus] w0"
    unfolding claim_re_def re_lang_lits_iff by blast
  from re_lang_ConsD [OF w0] obtain ws1 w1 where 1: "w0 = ws1 @ w1" "list_all uni_space ws1"
    "re_lang [Group Digit Plus, Atom Space Star, Atom (Lit 47) Once, Atom Space Star, Group Digit Plus] w1"
    by (auto simp: run_ok_Space_Star)
  from re_lang_ConsD [OF 1(3)] obtain d1 w2 where 2: "w1 = d1 @ w2" "d1 \<noteq> []" "list_all uni_decimal d1"
    "re_lang [Atom Space Star, Atom (Lit 47) Once, Atom Space Star, Group Digit Plus] w2"
    by (auto simp: run_ok_Digit_Plus)
  from re_lang_ConsD [OF 2(4)] obtain ws2 w3 where 3: "w2 = ws2 @ w3" "list_all uni_space ws2"
    "re_lang [Atom (Lit 47) Once, Atom Space Star, Group Digit Plus] w3"
    by (auto simp: run_ok_Space_Star)
  from re_lang_ConsD [OF 3(3)] obtain w4 where 4: "w3 = [47] @ w4"
    "re_lang [Atom Space Star, Group Digit Plus] w4"
    by (auto simp: run_ok_Lit_Once)
  from re_lang_ConsD [OF 4(2)] obtain ws3 w5 where 5: "w4 = ws3 @ w5" "list_all uni_space ws3"
    "re_lang [Group Digit Plus] w5"
    by (auto simp: run_ok_Space_Star)
  from re_lang_ConsD [OF 5(3)] obtain d2 where 6: "w5 = d2" "d2 \<noteq> []" "list_all uni_decimal d2"
    by (auto simp: run_ok_Digit_Plus)
  have "u = ascii ''Claimed:'' @ ws1 @ d1 @ ws2 @ [47] @ ws3 @ d2"
    by (simp only: u 1(1) 2(1) 3(1) 4(1) 5(1) 6(1))
  with 1(2) 2(2,3) 3(2) 5(2) 6(2,3) show ?R by blast
next
  assume ?R
  then obtain ws1 d1 ws2 ws3 d2 where
    u: "u = ascii ''Claimed:'' @ ws1 @ d1 @ ws2 @ [47] @ ws3 @ d2" and
    ok: "list_all uni_space ws1" "list_all uni_space ws2" "list_all uni_space ws3"
    "d1 \<noteq> []" "list_all uni_decimal d1" "d2 \<noteq> []" "list_all uni_decimal d2"
    by blast
  have "re_lang [Group Digit Plus] (d2 @ [])"
    by (rule re_lang_ConsI) (simp_all add: run_ok_Digit_Plus ok)
  then have "re_lang [Atom Space Star, Group Digit Plus] (ws3 @ d2 @ [])"
    by (rule re_lang_ConsI [rotated]) (simp add: run_ok_Space_Star ok)
  then have "re_lang [Atom (Lit 47) Once, Atom Space Star, Group Digit Plus] ([47] @ ws3 @ d2 @ [])"
    by (rule re_lang_ConsI [rotated]) (simp add: run_ok_Lit_Once)
  then have "re_lang [Atom Space Star, Atom (Lit 47) Once, Atom Space Star, Group Digit Plus]
      (ws2 @ [47] @ ws3 @ d2 @ [])"
    by (rule re_lang_ConsI [rotated]) (simp add: run_ok_Space_Star ok)
  then have "re_lang [Group Digit Plus, Atom Space Star, Atom (Lit 47) Once, Atom Space Star,
      Group Digit Plus] (d1 @ ws2 @ [47] @ ws3 @ d2 @ [])"
    by (rule re_lang_ConsI [rotated]) (simp add: run_ok_Digit_Plus ok)
  then have "re_lang [Atom Space Star, Group Digit Plus, Atom Space Star, Atom (Lit 47) Once,
      Atom Space Star, Group Digit Plus] (ws1 @ d1 @ ws2 @ [47] @ ws3 @ d2 @ [])"
    by (rule re_lang_ConsI [rotated]) (simp add: run_ok_Space_Star ok)
  then show ?L
    unfolding claim_re_def re_lang_lits_iff u by simp
qed

lemma re_occurs_claim_re_iff: "re_occurs claim_re l \<longleftrightarrow> claimed_shape l"
proof
  assume "re_occurs claim_re l"
  then obtain pre u post where l: "l = pre @ u @ post" and u: "re_lang claim_re u"
    unfolding re_occurs_def by blast
  from u obtain ws1 d1 ws2 ws3 d2 where
    u': "u = ascii ''Claimed:'' @ ws1 @ d1 @ ws2 @ [47] @ ws3 @ d2" and
    ok: "list_all uni_space ws1" "list_all uni_space ws2" "list_all uni_space ws3"
    "d1 \<noteq> []" "list_all uni_decimal d1" "d2 \<noteq> []" "list_all uni_decimal d2"
    unfolding claim_re_lang_iff by blast
  have "l = pre @ ascii ''Claimed:'' @ ws1 @ d1 @ ws2 @ [47] @ ws3 @ d2 @ post"
    unfolding l u' by (simp only: append_assoc)
  with ok show "claimed_shape l"
    unfolding claimed_shape_def by blast
next
  assume "claimed_shape l"
  then obtain pre ws1 d1 ws2 ws3 d2 post where
    l: "l = pre @ ascii ''Claimed:'' @ ws1 @ d1 @ ws2 @ [47] @ ws3 @ d2 @ post" and
    ok: "list_all uni_space ws1" "list_all uni_space ws2" "list_all uni_space ws3"
    "d1 \<noteq> []" "list_all uni_decimal d1" "d2 \<noteq> []" "list_all uni_decimal d2"
    unfolding claimed_shape_def by blast
  let ?u = "ascii ''Claimed:'' @ ws1 @ d1 @ ws2 @ [47] @ ws3 @ d2"
  have "re_lang claim_re ?u" unfolding claim_re_lang_iff using ok by blast
  moreover have "l = pre @ ?u @ post" unfolding l by (simp only: append_assoc)
  ultimately show "re_occurs claim_re l" unfolding re_occurs_def by blast
qed

lemma extract_fields_line2:
  assumes "message_lines (re_sub_empty tag_re raw) = l1 # l2 # ls"
    and "re_search claim_re l2 = None"
  shows "extract_fields raw = None"
  using assms by (simp add: extract_fields_def Let_def split: option.splits)

lemma re_match_groups:
  "re_match p s = Some (gs, rest) \<Longrightarrow>
     list_all2 (\<lambda>g it. run_ok (item_class it) (item_quant it) g) gs (filter is_group p)"
proof (induction p arbitrary: s gs)
  case Nil
  then show ?case by simp
next
  case (Cons it p)
  from Cons.prems have "match_item it (re_match p) s = Some (gs, rest)" by simp
  from match_item_SomeD [OF this] obtain n gs' where
    n: "run_ok (item_class it) (item_quant it) (take n s)"
    "re_match p (drop n s) = Some (gs', rest)"
    "gs = (if is_group it then take n s # gs' else gs')"
    by blast
  from Cons.IH [OF n(2)] n(1,3) show ?case by simp
qed

lemma re_search_groups:
  assumes "re_search p s = Some m"
  shows "list_all2 (\<lambda>g it. run_ok (item_class it) (item_quant it) g) (fst m) (filter is_group p)"
proof -
  from re_search_SomeD [OF assms] obtain i where "re_match p (drop i s) = Some m" by blast
  then have "re_match p (drop i s) = Some (fst m, snd m)" by simp
  then show ?thesis by (rule re_match_groups)
qed

lemma re_match_rest_subset: "re_match p s = Some (gs, rest) \<Longrightarrow> set rest \<subseteq> set s"
  using re_match_sound [of p s gs rest] by (auto dest: in_set_dropD)

lemma set_re_sub_empty: "set (re_sub_empty p s) \<subseteq> set s"
proof (induction p s rule: re_sub_empty.induct)
  case (1 p)
  then show ?case by simp
next
  case (2 p c cs)
  show ?case
  proof (cases "re_match p (c # cs)")
    case None
    with 2(1) show ?thesis by auto
  next
    case (Some m)
    obtain gs rest where m: "m = (gs, rest)" by (cases m)
    show ?thesis
    proof (cases "length rest < length (c # cs)")
      case True
      from 2(2) [OF Some [unfolded m] refl True] re_match_rest_subset [OF Some [unfolded m]]
      show ?thesis using Some m True by auto
    next
      case False
      from 2(3) [OF Some [unfolded m] refl False] show ?thesis using Some m False by auto
    qed
  qed
qed

lemma split_nl_not_Nil: "split_nl t \<noteq> []"
  by (induction t) (auto split: list.splits)

lemma set_split_nl: "l \<in> set (split_nl t) \<Longrightarrow> set l \<subseteq> set t"
proof (induction t arbitrary: l)
  case Nil
  then show ?case by simp
next
  case (Cons c t)
  show ?case
  proof (cases "c = 10")
    case True
    with Cons show ?thesis by auto
  next
    case False
    obtain l0 ls where sp: "split_nl t = l0 # ls"
      using split_nl_not_Nil [of t] by (cases "split_nl t") auto
    with False Cons.prems have "l = c # l0 \<or> l \<in> set ls" by simp
    then show ?thesis
    proof
      assume "l = c # l0"
      moreover have "set l0 \<subseteq> set t" using Cons.IH [of l0] sp by simp
      ultimately show ?thesis by auto
    next
      assume "l \<in> set ls"
      then have "set l \<subseteq> set t" using Cons.IH [of l] sp by simp
      then show ?thesis by auto
    qed
  qed
qed

lemma set_strip: "set (strip s) \<subseteq> set s"
proof -
  have "set (strip s) = set (dropWhile uni_space (rev (dropWhile uni_space s)))"
    by (simp add: strip_def)
  also have "\<dots> \<subseteq> set (rev (dropWhile uni_space s))" by (auto dest: set_dropWhileD)
  also have "\<dots> \<subseteq> set s" by (auto dest: set_dropWhileD)
  finally show ?thesis .
qed

lemma set_message_lines: "l \<in> set (message_lines t) \<Longrightarrow> set l \<subseteq> set t"
  unfolding message_lines_def using set_strip set_split_nl by fastforce

lemma re_occurs_first_literal: "re_occurs (Atom (Lit c) Once # p) l \<Longrightarrow> c \<in> set l"
proof -
  assume "re_occurs (Atom (Lit c) Once # p) l"
  then obtain pre u post where l: "l = pre @ u @ post" and u: "re_lang (Atom (Lit c) Once # p) u"
    unfolding re_occurs_def by blast
  from re_lang_ConsD [OF u] obtain v w where "u = v @ w" "run_ok (Lit c) Once v" by auto
  then have "c \<in> set u" by (simp add: run_ok_Lit_Once)
  with l show ?thesis by simp
qed

lemma re_search_amount_None: "plus_minus \<notin> set l \<Longrightarrow> re_search amount_re l = None"
  using re_search_iff_occurs [of amount_re l] re_occurs_first_literal [of plus_minus _ l]
  unfolding amount_re_def by blast

lemma filter_is_group_lits: "filter is_group (lits s) = []"
  by (simp add: lits_def)

lemma amount_groups:
  assumes "re_search amount_re l = Some m"
  shows "run_ok (Union [Digit, Lit 46]) Plus (group m 1) \<and>
         run_ok (Union [Range 65 90, Range 97 122, Range 48 57]) Plus (group m 2)"
  using re_search_groups [OF assms] by (auto simp: amount_re_def group_def list_all2_Cons2)

lemma claim_groups:
  assumes "re_search claim_re l = Some m"
  shows "run_ok Digit Plus (group m 1) \<and> run_ok Digit Plus (group m 2)"
  using re_search_groups [OF assms]
  by (auto simp: claim_re_def group_def list_all2_Cons2 filter_is_group_lits)

lemma code_groups:
  assumes "re_search code_re l = Some m"
  shows "run_ok (Union [Range 65 90, Range 48 57]) Plus (group m 1)"
  using re_search_groups [OF assms] by (auto simp: code_re_def group_def list_all2_Cons2)

lemma extract_fields_well_formed:
  assumes "extract_fields raw = Some r"
  shows "well_formed r"
proof -
  let ?lines = "message_lines (re_sub_empty tag_re raw)"
  from assms obtain m1 m2 m3 where
    m: "re_search amount_re (?lines ! 0) = Some m1" "re_search claim_re (?lines ! 1) = Some m2"
       "re_search code_re (?lines ! 2) = Some m3" and
    r: "r = \<lparr>code = group m3 1, amount = group m1 1, token = group m1 2,
             claimed = group m2 1, total = group m2 2\<rparr>"
    unfolding extract_fields_def Let_def by (auto split: if_splits option.splits)
  from amount_groups [OF m(1)] claim_groups [OF m(2)] code_groups [OF m(3)]
  show ?thesis unfolding well_formed_def r by simp
qed

lemma not_in_run: "run_ok k Plus u \<Longrightarrow> \<not> in_class k c \<Longrightarrow> c \<notin> set u"
  by (auto simp: run_ok_def list_all_iff)

lemma no_plus_minus_in_format:
  assumes "well_formed r"
  shows "plus_minus \<notin> set (format r)"
proof -
  have dec: "\<not> uni_decimal plus_minus"
    by (simp add: uni_decimal_def decimal_zeros_def plus_minus_def)
  have 1: "plus_minus \<notin> set (code r)"
    by (rule not_in_run [of "Union [Range 65 90, Range 48 57]"])
      (use assms in \<open>simp_all add: well_formed_def plus_minus_def\<close>)
  have 2: "plus_minus \<notin> set (amount r)"
    by (rule not_in_run [of "Union [Digit, Lit 46]"])
      (use assms dec in \<open>simp_all add: well_formed_def plus_minus_def\<close>)
  have 3: "plus_minus \<notin> set (token r)"
    by (rule not_in_run [of "Union [Range 65 90, Range 97 122, Range 48 57]"])
      (use assms in \<open>simp_all add: well_formed_def plus_minus_def\<close>)
  have 4: "plus_minus \<notin> set (claimed r)"
    by (rule not_in_run [of Digit]) (use assms dec in \<open>simp_all add: well_formed_def\<close>)
  have 5: "plus_minus \<notin> set (total r)"
    by (rule not_in_run [of Digit]) (use assms dec in \<open>simp_all add: well_formed_def\<close>)
  have lit: "plus_minus \<notin> set (ascii '' Code: '')" "plus_minus \<notin> set (ascii '' Amount: '')"
    "plus_minus \<notin> set (ascii '' '')" "plus_minus \<notin> set (ascii '' Progress: '')"
    "plus_minus \<notin> set (ascii '' / '')" "plus_minus \<notin> set (ascii ''#Binance #RedPacketHub'')"
    by (simp_all add: ascii_def plus_minus_def)
  have sym: "plus_minus \<noteq> gift" "plus_minus \<noteq> money_bag" "plus_minus \<noteq> red_envelope"
    "plus_minus \<noteq> 10"
    by (simp_all add: plus_minus_def gift_def money_bag_def red_envelope_def)
  show ?thesis
    unfolding format_def using 1 2 3 4 5 lit sym by simp
qed

lemma extract_fields_without_plus_minus:
  assumes "plus_minus \<notin> set t"
  shows "extract_fields t = None"
proof (cases "length (message_lines (re_sub_empty tag_re t)) < 3")
  case True
  then show ?thesis by (simp add: extract_fields_def Let_def)
next
  case False
  let ?lines = "message_lines (re_sub_empty tag_re t)"
  from False have "0 < length ?lines" by linarith
  then have "?lines ! 0 \<in> set ?lines" by (rule nth_mem)
  then have "set (?lines ! 0) \<subseteq> set (re_sub_empty tag_re t)" by (rule set_message_lines)
  also have "\<dots> \<subseteq> set t" by (rule set_re_sub_empty)
  finally have "plus_minus \<notin> set (?lines ! 0)" using assms by blast
  then have "re_search amount_re (?lines ! 0) = None" by (rule re_search_amount_None)
  then show ?thesis by (simp add: extract_fields_def Let_def)
qed

section \<open>The parser on concrete messages\<close>

lemmas parser_defs =
  parse_and_format_message_def extract_fields_def Let_def message_lines_def strip_def format_def
  group_def tag_re_def amount_re_def claim_re_def code_re_def lits_def match_item_def ascii_def
  money_bag_def plus_minus_def red_envelope_def gift_def uni_space_def uni_decimal_def
  decimal_zeros_def

text \<open>
  C1. The three-line message with amount \<open>0.00000002 BNB\<close>, progress \<open>646 / 711\<close> and code
  \<open>IJAU5UL6\<close> is parsed into exactly the four template lines, the code first, with an empty
  line before the hashtag line.
\<close>

theorem parse_well_formed_example:
  "parse_and_format_message
     ([money_bag, 32, plus_minus] @ ascii '' 0.00000002 BNB'' @ [10] @
      [red_envelope] @ ascii '' Claimed: 646 / 711'' @ [10] @
      [gift] @ ascii '' IJAU5UL6'') =
   Some ([gift] @ ascii '' Code: IJAU5UL6'' @ [10] @
         [money_bag] @ ascii '' Amount: 0.00000002 BNB'' @ [10] @
         [red_envelope] @ ascii '' Progress: 646 / 711'' @ [10] @
         [10] @
         ascii ''#Binance #RedPacketHub'')"
  by (simp add: parser_defs)

section \<open>Messages the parser rejects\<close>

text \<open>
  C7. A text that, once every tag is removed, has fewer than three lines that are not empty
  after trimming is rejected.
\<close>

theorem parse_rejects_fewer_than_three_lines:
  "length (message_lines (re_sub_empty tag_re raw)) < 3 \<Longrightarrow> parse_and_format_message raw = None"
  by (simp add: parse_and_format_message_def extract_fields_def Let_def)

text \<open>
  The text of the witness has three lines, but a tag runs from its second line into its
  third: removing the tag joins them, two lines are left, and the text is rejected.
\<close>

theorem parse_rejects_fewer_than_three_lines_witness:
  "length (message_lines (re_sub_empty tag_re tag_across_lines)) < 3 \<and>
   parse_and_format_message tag_across_lines = None"
proof -
  have h: "length (message_lines (re_sub_empty tag_re tag_across_lines)) < 3"
    by (simp add: tag_across_lines_def parser_defs)
  from h parse_rejects_fewer_than_three_lines [OF h] show ?thesis by (intro conjI)
qed

text \<open>
  C8. When the second line does not hold \<open>Claimed:\<close>, digits, a slash and digits, the
  message is rejected. Nothing is asked of the other lines: the rejection does not depend
  on them, so it holds in particular when there are exactly three lines and the first and
  the third match their patterns, as in the witness.
\<close>

theorem parse_rejects_malformed_claimed_line:
  assumes "message_lines (re_sub_empty tag_re raw) = l1 # l2 # ls" and "\<not> claimed_shape l2"
  shows "parse_and_format_message raw = None"
proof -
  from assms(2) have "\<not> re_occurs claim_re l2" by (simp add: re_occurs_claim_re_iff)
  then have "re_search claim_re l2 = None"
    using re_search_iff_occurs [of claim_re l2] by blast
  with assms(1) show ?thesis
    by (simp add: parse_and_format_message_def extract_fields_line2)
qed

theorem parse_rejects_malformed_claimed_line_witness:
  "message_lines (re_sub_empty tag_re claimed_without_colon) =
     [[money_bag, 32, plus_minus] @ ascii '' 0.5 BNB'',
      [red_envelope] @ ascii '' Claimed 646 / 711'',
      [gift] @ ascii '' IJAU5UL6''] \<and>
   re_search amount_re ([money_bag, 32, plus_minus] @ ascii '' 0.5 BNB'') \<noteq> None \<and>
   re_search code_re ([gift] @ ascii '' IJAU5UL6'') \<noteq> None \<and>
   \<not> claimed_shape ([red_envelope] @ ascii '' Claimed 646 / 711'') \<and>
   parse_and_format_message claimed_without_colon = None"
proof -
  have lines: "message_lines (re_sub_empty tag_re claimed_without_colon) =
     ([money_bag, 32, plus_minus] @ ascii '' 0.5 BNB'') #
     ([red_envelope] @ ascii '' Claimed 646 / 711'') #
     [[gift] @ ascii '' IJAU5UL6'']"
    by (simp add: claimed_without_colon_def parser_defs)
  have "re_search claim_re ([red_envelope] @ ascii '' Claimed 646 / 711'') = None"
    by (simp add: parser_defs)
  then have bad: "\<not> claimed_shape ([red_envelope] @ ascii '' Claimed 646 / 711'')"
    using re_search_iff_occurs [of claim_re "[red_envelope] @ ascii '' Claimed 646 / 711''"]
    by (simp add: re_occurs_claim_re_iff)
  have one: "re_search amount_re ([money_bag, 32, plus_minus] @ ascii '' 0.5 BNB'') \<noteq> None"
    by (simp add: parser_defs)
  have three: "re_search code_re ([gift] @ ascii '' IJAU5UL6'') \<noteq> None"
    by (simp add: parser_defs)
  from lines one three bad parse_rejects_malformed_claimed_line [OF lines bad]
  show ?thesis by (intro conjI)
qed

section \<open>The output is not a message\<close>

text \<open>
  C9. Whenever a message is parsed, its output, given to the parser as a new message, is
  rejected. (So it never yields the record it came from, nor any other.) The reason is that
  the output holds no plus-minus sign: the template has none, and the patterns let none
  into a field.
\<close>

theorem reparse_of_output_rejected:
  assumes "parse_and_format_message raw = Some out"
  shows "parse_and_format_message out = None"
proof -
  from assms obtain r where r: "extract_fields raw = Some r" and out: "out = format r"
    by (auto simp: parse_and_format_message_def)
  from r have "well_formed r" by (rule extract_fields_well_formed)
  then have "plus_minus \<notin> set out" unfolding out by (rule no_plus_minus_in_format)
  then have "extract_fields out = None" by (rule extract_fields_without_plus_minus)
  then show ?thesis by (simp add: parse_and_format_message_def)
qed

theorem reparse_of_output_rejected_witness:
  "parse_and_format_message small_message =
     Some ([gift] @ ascii '' Code: AB12'' @ [10] @ [money_bag] @ ascii '' Amount: 5 USDT'' @ [10] @
           [red_envelope] @ ascii '' Progress: 1 / 2'' @ [10, 10] @ ascii ''#Binance #RedPacketHub'') \<and>
   parse_and_format_message
     ([gift] @ ascii '' Code: AB12'' @ [10] @ [money_bag] @ ascii '' Amount: 5 USDT'' @ [10] @
      [red_envelope] @ ascii '' Progress: 1 / 2'' @ [10, 10] @ ascii ''#Binance #RedPacketHub'') = None"
proof -
  have h: "parse_and_format_message small_message =
     Some ([gift] @ ascii '' Code: AB12'' @ [10] @ [money_bag] @ ascii '' Amount: 5 USDT'' @ [10] @
           [red_envelope] @ ascii '' Progress: 1 / 2'' @ [10, 10] @ ascii ''#Binance #RedPacketHub'')"
    by (simp add: small_message_def parser_defs)
  from h reparse_of_output_rejected [OF h] show ?thesis by (intro conjI)
qed

section \<open>The handler\<close>

lemma py_in_iff_sublist: "py_in sub s \<longleftrightarrow> sublist sub s"
  by (induction s) (simp_all add: sublist_Cons_right)

lemma has_link_iff:
  "has_link raw \<longleftrightarrow>
     sublist (ascii ''http://'') raw \<or> sublist (ascii ''https://'') raw \<or>
     sublist (ascii ''<a href='') raw"
  by (simp add: has_link_def py_in_iff_sublist)

lemma parse_small_message: "parse_and_format_message small_message = Some small_output"
  by (simp add: small_message_def small_output_def parser_defs)

lemma parse_message_with_link: "parse_and_format_message message_with_link = Some small_output"
  by (simp add: message_with_link_def small_output_def parser_defs)

lemma link_in_message_with_link: "sublist (ascii ''https://'') message_with_link"
proof -
  have "py_in (ascii ''https://'') message_with_link"
    by (simp add: message_with_link_def ascii_def plus_minus_def gift_def)
  then show ?thesis by (simp only: py_in_iff_sublist)
qed

lemma format_not_Nil: "format r \<noteq> []"
  by (simp add: format_def)

lemma parse_not_Nil: "parse_and_format_message raw = Some parsed \<Longrightarrow> parsed \<noteq> []"
  by (auto simp: parse_and_format_message_def format_not_Nil)

lemma handler_accepted:
  assumes "\<not> has_link raw" and "parse_and_format_message raw = Some parsed"
  shows "handler cfg (Some raw) now out s =
     (if \<not> is_forwarding s \<or> now - last_forward_time s > real_of_int (rate_limit cfg)
      then (s\<lparr>last_forward_time := now, is_forwarding := True\<rparr>,
            forward_to_targets cfg parsed out @ [Create_task])
      else (s\<lparr>message_queue := message_queue s @ [parsed]\<rparr>,
            [Log_info (Queued (Suc (length (message_queue s))))]))"
  using assms parse_not_Nil [OF assms(2)]
  by (simp add: handler_def handler_start_def handler_finish_def Let_def)

lemma no_link_small_message: "\<not> has_link small_message"
  by (simp add: has_link_def small_message_def ascii_def plus_minus_def gift_def)

lemma small_output_not_Nil: "small_output \<noteq> []"
  by (simp add: small_output_def)

lemmas run_defs = small_output_not_Nil run_def handler_start_def handler_finish_def no_link_small_message
  parse_small_message Let_def forward_to_targets_def demo_config_def all_delivered_def
  initial_system_def initial_state_def

text \<open>
  C4. A message whose text holds \<open>http://\<close>, \<open>https://\<close> or \<open><a href=\<close> anywhere is skipped:
  the handler leaves the state as it was, sends nothing and writes the one log line. The
  test is Python's \<open>in\<close>, an exact comparison of characters, and it comes before the
  parser: the message of the witness would be parsed, and is skipped all the same.
\<close>

theorem handler_skips_links:
  assumes "sublist (ascii ''http://'') raw \<or> sublist (ascii ''https://'') raw \<or>
           sublist (ascii ''<a href='') raw"
  shows "handler cfg (Some raw) now out s = (s, [Log_info Skipped_hyperlink])"
proof -
  from assms have "has_link raw" by (simp only: has_link_iff)
  then show ?thesis by (simp add: handler_def handler_start_def)
qed

theorem handler_skips_links_witness:
  "sublist (ascii ''https://'') message_with_link \<and>
   parse_and_format_message message_with_link = Some small_output \<and>
   handler demo_config (Some message_with_link) 1000 all_delivered initial_state =
     (initial_state, [Log_info Skipped_hyperlink])"
proof -
  have h: "sublist (ascii ''http://'') message_with_link \<or>
      sublist (ascii ''https://'') message_with_link \<or>
      sublist (ascii ''<a href='') message_with_link"
    using link_in_message_with_link by blast
  from link_in_message_with_link parse_message_with_link
    handler_skips_links [OF h, of demo_config 1000 all_delivered initial_state]
  show ?thesis by (intro conjI)
qed

text \<open>
  C2, as it holds. An accepted record is relayed at once exactly when \<open>is_forwarding\<close> is
  false or more than \<open>rate_limit\<close> seconds have passed since \<open>last_forward_time\<close>; the
  handler then sets \<open>last_forward_time\<close> to the present and \<open>is_forwarding\<close> to true.
  Otherwise the record goes to the end of the queue. With a limit of 60: while
  \<open>is_forwarding\<close> is true, a record 30 seconds after the last immediate send is queued
  and one 90 seconds after is relayed at once; while it is false, a record is relayed at
  once whatever the time.
\<close>

theorem admission_decision:
  assumes "\<not> has_link raw" and "parse_and_format_message raw = Some parsed"
  shows
    "handler cfg (Some raw) now out s =
       (if \<not> is_forwarding s \<or> now - last_forward_time s > real_of_int (rate_limit cfg)
        then (s\<lparr>last_forward_time := now, is_forwarding := True\<rparr>,
              forward_to_targets cfg parsed out @ [Create_task])
        else (s\<lparr>message_queue := message_queue s @ [parsed]\<rparr>,
              [Log_info (Queued (Suc (length (message_queue s))))])) \<and>
     (rate_limit cfg = 60 \<and> is_forwarding s \<and> now - last_forward_time s = 30 \<longrightarrow>
        handler cfg (Some raw) now out s =
          (s\<lparr>message_queue := message_queue s @ [parsed]\<rparr>,
           [Log_info (Queued (Suc (length (message_queue s))))])) \<and>
     (rate_limit cfg = 60 \<and> now - last_forward_time s = 90 \<longrightarrow>
        handler cfg (Some raw) now out s =
          (s\<lparr>last_forward_time := now, is_forwarding := True\<rparr>,
           forward_to_targets cfg parsed out @ [Create_task])) \<and>
     (\<not> is_forwarding s \<longrightarrow>
        handler cfg (Some raw) now out s =
          (s\<lparr>last_forward_time := now, is_forwarding := True\<rparr>,
           forward_to_targets cfg parsed out @ [Create_task]))"
  using handler_accepted [OF assms, of cfg now out s] by simp

theorem admission_decision_witness:
  "\<not> has_link small_message \<and>
   parse_and_format_message small_message = Some small_output \<and>
   handler demo_config (Some small_message) 1030 all_delivered
       \<lparr>message_queue = [], is_forwarding = True, last_forward_time = 1000\<rparr> =
     (\<lparr>message_queue = [small_output], is_forwarding = True, last_forward_time = 1000\<rparr>,
      [Log_info (Queued 1)]) \<and>
   handler demo_config (Some small_message) 1090 all_delivered
       \<lparr>message_queue = [], is_forwarding = True, last_forward_time = 1000\<rparr> =
     (\<lparr>message_queue = [], is_forwarding = True, last_forward_time = 1090\<rparr>,
      [Send_message 1 small_output, Log_info (Forwarded 1), Sleep 1, Create_task])"
proof -
  note h = admission_decision [OF no_link_small_message parse_small_message]
  have a: "handler demo_config (Some small_message) 1030 all_delivered
       \<lparr>message_queue = [], is_forwarding = True, last_forward_time = 1000\<rparr> =
     (\<lparr>message_queue = [small_output], is_forwarding = True, last_forward_time = 1000\<rparr>,
      [Log_info (Queued 1)])"
    using h [of demo_config 1030 all_delivered
        "\<lparr>message_queue = [], is_forwarding = True, last_forward_time = 1000\<rparr>"]
    by (simp add: demo_config_def)
  have b: "handler demo_config (Some small_message) 1090 all_delivered
       \<lparr>message_queue = [], is_forwarding = True, last_forward_time = 1000\<rparr> =
     (\<lparr>message_queue = [], is_forwarding = True, last_forward_time = 1090\<rparr>,
      [Send_message 1 small_output, Log_info (Forwarded 1), Sleep 1, Create_task])"
    using h [of demo_config 1090 all_delivered
        "\<lparr>message_queue = [], is_forwarding = True, last_forward_time = 1000\<rparr>"]
    by (simp add: demo_config_def forward_to_targets_def all_delivered_def)
  from no_link_small_message parse_small_message a b show ?thesis by (intro conjI)
qed

text \<open>
  C2 as the specification words it fails: it has every record that arrives 30 seconds
  after the last immediate send queued. A first message is relayed at once at time 1000;
  its handler sets the flag and starts the drain task; the drain task finds the queue
  empty and clears the flag. A second message at time 1030 is then relayed at once, and
  nothing is queued.
\<close>

theorem admission_after_thirty_seconds_counterexample:
  "run demo_config initial_system
     [Message (Some small_message) 1000 all_delivered, Resume 0 all_delivered,
      Resume 1 all_delivered] =
     \<lparr>globals = \<lparr>message_queue = [], is_forwarding = False, last_forward_time = 1000\<rparr>,
      tasks = [Finished, Finished],
      trace = [Send_message 1 small_output, Log_info (Forwarded 1), Sleep 1, Create_task]\<rparr> \<and>
   handler demo_config (Some small_message) 1030 all_delivered
       \<lparr>message_queue = [], is_forwarding = False, last_forward_time = 1000\<rparr> =
     (\<lparr>message_queue = [], is_forwarding = True, last_forward_time = 1030\<rparr>,
      [Send_message 1 small_output, Log_info (Forwarded 1), Sleep 1, Create_task])"
  by (simp add: handler_def run_defs)

section \<open>The relay call\<close>

lemma attempts_append: "attempts (es @ fs) = attempts es @ attempts fs"
  by (induction es rule: attempts.induct) simp_all

lemma attempts_forward_from:
  "attempts (forward_from text out i chs) = map (\<lambda>ch. (ch, text)) chs"
  by (induction chs arbitrary: i) (simp_all add: attempts_append split: outcome.splits)

lemma forward_from_append:
  "forward_from text out i (xs @ ys) =
     forward_from text out i xs @ forward_from text out (i + length xs) ys"
  by (induction xs arbitrary: i) simp_all

lemma handler_state_ignores_outcomes:
  "fst (handler cfg message now out s) = fst (handler cfg message now out' s)"
  by (simp add: handler_def handler_start_def handler_finish_def Let_def split: option.splits)

text \<open>
  C6. When the send to the destination at position \<open>i\<close> fails, the relay call logs the
  error and sleeps 2, and goes on: the destinations before it and all those after it are
  each tried once, in the order of the list. The call returns its trace in every case (the
  model has no other result for it: an \<open>Exception\<close> of a send ends in the \<open>except\<close>
  branch), and the state the handler leaves does not depend on how the sends went.
\<close>

theorem relay_isolates_failures:
  assumes "i < length (target_channels cfg)" and "out i = Failed e"
  shows "\<exists>before after.
           forward_to_targets cfg text out =
             before @
             [Send_message (target_channels cfg ! i) text,
              Log_error (Send_error (target_channels cfg ! i) e), Sleep 2] @
             after \<and>
           attempts before = map (\<lambda>ch. (ch, text)) (take i (target_channels cfg)) \<and>
           attempts after = map (\<lambda>ch. (ch, text)) (drop (Suc i) (target_channels cfg)) \<and>
           fst (handler cfg message now out s) = fst (handler cfg message now all_delivered s)"
proof -
  let ?chs = "target_channels cfg"
  have split: "?chs = take i ?chs @ (?chs ! i) # drop (Suc i) ?chs"
    using assms(1) by (rule id_take_nth_drop)
  have len: "length (take i ?chs) = i" using assms(1) by simp
  have "forward_to_targets cfg text out =
      forward_from text out 0 (take i ?chs @ (?chs ! i) # drop (Suc i) ?chs)"
    unfolding forward_to_targets_def using split by simp
  also have "\<dots> = forward_from text out 0 (take i ?chs) @
      forward_from text out i ((?chs ! i) # drop (Suc i) ?chs)"
    unfolding forward_from_append len by simp
  also have "forward_from text out i ((?chs ! i) # drop (Suc i) ?chs) =
      [Send_message (?chs ! i) text, Log_error (Send_error (?chs ! i) e), Sleep 2] @
      forward_from text out (Suc i) (drop (Suc i) ?chs)"
    using assms(2) by simp
  finally have "forward_to_targets cfg text out =
      forward_from text out 0 (take i ?chs) @
      [Send_message (?chs ! i) text, Log_error (Send_error (?chs ! i) e), Sleep 2] @
      forward_from text out (Suc i) (drop (Suc i) ?chs)" .
  then show ?thesis
    using attempts_forward_from [of "text" out 0 "take i ?chs"]
      attempts_forward_from [of "text" out "Suc i" "drop (Suc i) ?chs"]
      handler_state_ignores_outcomes [of cfg message now out s all_delivered]
    by blast
qed

theorem relay_isolates_failures_witness:
  "0 < length (target_channels two_targets) \<and>
   first_fails 0 = Failed (ascii ''flood wait'') \<and>
   forward_to_targets two_targets small_output first_fails =
     [Send_message 1 small_output, Log_error (Send_error 1 (ascii ''flood wait'')), Sleep 2,
      Send_message 2 small_output, Log_info (Forwarded 2), Sleep 1] \<and>
   (\<exists>before after.
      forward_to_targets two_targets small_output first_fails =
        before @
        [Send_message 1 small_output, Log_error (Send_error 1 (ascii ''flood wait'')), Sleep 2] @
        after \<and>
      attempts before = [] \<and> attempts after = [(2, small_output)])"
proof -
  have h1: "0 < length (target_channels two_targets)" by (simp add: two_targets_def)
  have h2: "first_fails 0 = Failed (ascii ''flood wait'')" by (simp add: first_fails_def)
  have ev: "forward_to_targets two_targets small_output first_fails =
     [Send_message 1 small_output, Log_error (Send_error 1 (ascii ''flood wait'')), Sleep 2,
      Send_message 2 small_output, Log_info (Forwarded 2), Sleep 1]"
    by (simp add: forward_to_targets_def two_targets_def first_fails_def)
  from relay_isolates_failures
    [of 0 two_targets first_fails "ascii ''flood wait''" small_output None 0 initial_state,
     OF h1 h2]
  have "\<exists>before after.
      forward_to_targets two_targets small_output first_fails =
        before @
        [Send_message 1 small_output, Log_error (Send_error 1 (ascii ''flood wait'')), Sleep 2] @
        after \<and>
      attempts before = [] \<and> attempts after = [(2, small_output)]"
    by (simp add: two_targets_def) blast
  with h1 h2 ev show ?thesis by (intro conjI)
qed

section \<open>The drain loop\<close>

lemma map_enumerate_Suc:
  "map (\<lambda>(k, x). f k x) (enumerate (Suc n) xs) = map (\<lambda>(k, x). f (Suc k) x) (enumerate n xs)"
  by (induction xs arbitrary: n) simp_all

lemma deliveries_Cons:
  "deliveries cfg outs (msg # msgs) =
     Sleep (queue_delay cfg) # forward_to_targets cfg msg (outs 0) @
     deliveries cfg (\<lambda>k. outs (Suc k)) msgs"
  unfolding deliveries_def
  using map_enumerate_Suc [of "\<lambda>k msg. Sleep (queue_delay cfg) # forward_to_targets cfg msg (outs k)" 0 msgs]
  by simp

lemma deliveries_Nil: "deliveries cfg outs [] = []"
  by (simp add: deliveries_def)

lemma process_queue_eq:
  "process_queue cfg outs s =
     Inr (s\<lparr>message_queue := [], is_forwarding := False\<rparr>, deliveries cfg outs (message_queue s))"
proof (induction "message_queue s" arbitrary: s outs)
  case Nil
  then have "message_queue s = []" by simp
  then show ?case by (subst process_queue.simps) (cases s, simp add: deliveries_Nil)
next
  case (Cons msg rest)
  from Cons(2) have q: "message_queue s = msg # rest" by simp
  have "rest = message_queue (s\<lparr>message_queue := rest\<rparr>)" by simp
  from Cons(1) [OF this]
  have "process_queue cfg (\<lambda>k. outs (Suc k)) (s\<lparr>message_queue := rest\<rparr>) =
      Inr (s\<lparr>message_queue := [], is_forwarding := False\<rparr>, deliveries cfg (\<lambda>k. outs (Suc k)) rest)"
    by simp
  then show ?case
    by (subst process_queue.simps) (simp add: q deliveries_Cons)
qed

lemma run_append: "run cfg sys (evs @ evs') = run cfg (run cfg sys evs) evs'"
  by (simp add: run_def)

lemma run_Nil: "run cfg sys [] = sys"
  by (simp add: run_def)

lemma drain_iteration:
  assumes "i < length (tasks sys)" and "tasks sys ! i = Drain At_while"
    and "message_queue (globals sys) = msg # rest"
  shows "run cfg sys [Resume i out, Resume i out] =
     sys\<lparr>globals := (globals sys)\<lparr>message_queue := rest\<rparr>,
         trace := trace sys @ Sleep (queue_delay cfg) # forward_to_targets cfg msg out\<rparr>"
proof -
  have same: "(tasks sys)[i := Drain At_while] = tasks sys"
    using assms(1,2) by (simp add: list_update_same_conv)
  show ?thesis
    using assms by (simp add: run_def same)
qed

lemma drain_final:
  assumes "i < length (tasks sys)" and "tasks sys ! i = Drain At_while"
    and "message_queue (globals sys) = []"
  shows "run cfg sys [Resume i out] =
     sys\<lparr>globals := (globals sys)\<lparr>is_forwarding := False\<rparr>, tasks := (tasks sys)[i := Finished]\<rparr>"
  using assms by (simp add: run_def)

lemma deliveries_snoc:
  "deliveries cfg outs (msgs @ [m]) =
     deliveries cfg outs msgs @ Sleep (queue_delay cfg) # forward_to_targets cfg m (outs (length msgs))"
  by (simp add: deliveries_def enumerate_append_eq)

lemma drain_events_Suc:
  "drain_events i outs (Suc n) = drain_events i outs n @ [Resume i (outs n), Resume i (outs n)]"
  by (simp add: drain_events_def)

lemma drain_iterations:
  assumes "i < length (tasks sys)" and "tasks sys ! i = Drain At_while"
    and "n \<le> length (message_queue (globals sys))"
  shows "run cfg sys (drain_events i outs n) =
     sys\<lparr>globals := (globals sys)\<lparr>message_queue := drop n (message_queue (globals sys))\<rparr>,
         trace := trace sys @ deliveries cfg outs (take n (message_queue (globals sys)))\<rparr>"
  using assms(3)
proof (induction n)
  case 0
  show ?case by (simp add: drain_events_def run_Nil deliveries_Nil)
next
  case (Suc n)
  let ?q = "message_queue (globals sys)"
  let ?mid = "sys\<lparr>globals := (globals sys)\<lparr>message_queue := drop n ?q\<rparr>,
                   trace := trace sys @ deliveries cfg outs (take n ?q)\<rparr>"
  from Suc.prems have n: "n < length ?q" by simp
  then have ih: "run cfg sys (drain_events i outs n) = ?mid" using Suc.IH by simp
  have q: "message_queue (globals ?mid) = (?q ! n) # drop (Suc n) ?q"
    using n by (simp add: Cons_nth_drop_Suc)
  have t: "i < length (tasks ?mid)" "tasks ?mid ! i = Drain At_while"
    using assms(1,2) by simp_all
  have "run cfg sys (drain_events i outs (Suc n)) =
      run cfg ?mid [Resume i (outs n), Resume i (outs n)]"
    by (simp only: drain_events_Suc run_append ih)
  also have "\<dots> = ?mid\<lparr>globals := (globals ?mid)\<lparr>message_queue := drop (Suc n) ?q\<rparr>,
      trace := trace ?mid @ Sleep (queue_delay cfg) # forward_to_targets cfg (?q ! n) (outs n)\<rparr>"
    by (rule drain_iteration [OF t q])
  also have "\<dots> = sys\<lparr>globals := (globals sys)\<lparr>message_queue := drop (Suc n) ?q\<rparr>,
      trace := trace sys @ deliveries cfg outs (take (Suc n) ?q)\<rparr>"
    using n by (simp add: take_Suc_conv_app_nth deliveries_snoc)
  finally show ?case .
qed

text \<open>
  The drain loop when no other task runs between its blocks. \<open>process_queue\<close>, started
  on a queue of \<open>N\<close> records, returns (it does not raise), with the queue empty and
  \<open>is_forwarding\<close> false, after a trace that is, for each record in queue order, one
  sleep of \<open>queue_delay\<close> followed by one relay call for that record. Block by block:
  after \<open>n \<le> N\<close> rounds of the task the first \<open>n\<close> records have been relayed, the
  others are still queued and nothing else of the state has changed, so \<open>is_forwarding\<close>
  is as it was; the block after the \<open>N\<close>-th round clears it and ends the task.
\<close>

theorem drain_loop_delivers_in_order:
  assumes "i < length (tasks sys)" and "tasks sys ! i = Drain At_while"
  shows
    "process_queue cfg outs (globals sys) =
       Inr ((globals sys)\<lparr>message_queue := [], is_forwarding := False\<rparr>,
            deliveries cfg outs (message_queue (globals sys))) \<and>
     (\<forall>n \<le> length (message_queue (globals sys)).
        run cfg sys (drain_events i outs n) =
          sys\<lparr>globals := (globals sys)\<lparr>message_queue := drop n (message_queue (globals sys))\<rparr>,
              trace := trace sys @ deliveries cfg outs (take n (message_queue (globals sys)))\<rparr>) \<and>
     run cfg sys (drain_events i outs (length (message_queue (globals sys))) @ [Resume i out]) =
       sys\<lparr>globals := (globals sys)\<lparr>message_queue := [], is_forwarding := False\<rparr>,
           tasks := (tasks sys)[i := Finished],
           trace := trace sys @ deliveries cfg outs (message_queue (globals sys))\<rparr>"
proof (intro conjI allI impI)
  show "process_queue cfg outs (globals sys) =
       Inr ((globals sys)\<lparr>message_queue := [], is_forwarding := False\<rparr>,
            deliveries cfg outs (message_queue (globals sys)))"
    by (rule process_queue_eq)
next
  fix n assume "n \<le> length (message_queue (globals sys))"
  with assms show "run cfg sys (drain_events i outs n) =
          sys\<lparr>globals := (globals sys)\<lparr>message_queue := drop n (message_queue (globals sys))\<rparr>,
              trace := trace sys @ deliveries cfg outs (take n (message_queue (globals sys)))\<rparr>"
    by (rule drain_iterations)
next
  let ?q = "message_queue (globals sys)"
  let ?mid = "sys\<lparr>globals := (globals sys)\<lparr>message_queue := []\<rparr>,
                   trace := trace sys @ deliveries cfg outs ?q\<rparr>"
  have "run cfg sys (drain_events i outs (length ?q)) = ?mid"
    using drain_iterations [OF assms, of "length ?q" cfg outs] by simp
  then have "run cfg sys (drain_events i outs (length ?q) @ [Resume i out]) =
      run cfg ?mid [Resume i out]"
    by (simp only: run_append)
  also have "\<dots> = ?mid\<lparr>globals := (globals ?mid)\<lparr>is_forwarding := False\<rparr>,
      tasks := (tasks ?mid)[i := Finished]\<rparr>"
    by (rule drain_final) (use assms in simp_all)
  also have "\<dots> = sys\<lparr>globals := (globals sys)\<lparr>message_queue := [], is_forwarding := False\<rparr>,
           tasks := (tasks sys)[i := Finished],
           trace := trace sys @ deliveries cfg outs ?q\<rparr>"
    by simp
  finally show "run cfg sys (drain_events i outs (length ?q) @ [Resume i out]) =
       sys\<lparr>globals := (globals sys)\<lparr>message_queue := [], is_forwarding := False\<rparr>,
           tasks := (tasks sys)[i := Finished],
           trace := trace sys @ deliveries cfg outs ?q\<rparr>" .
qed

theorem drain_loop_delivers_in_order_witness:
  "0 < length (tasks draining) \<and> tasks draining ! 0 = Drain At_while \<and>
   process_queue demo_config (\<lambda>k. all_delivered) (globals draining) =
     Inr (\<lparr>message_queue = [], is_forwarding = False, last_forward_time = 1000\<rparr>,
          [Sleep 120, Send_message 1 (ascii ''first''), Log_info (Forwarded 1), Sleep 1,
           Sleep 120, Send_message 1 (ascii ''second''), Log_info (Forwarded 1), Sleep 1]) \<and>
   run demo_config draining (drain_events 0 (\<lambda>k. all_delivered) 2 @ [Resume 0 all_delivered]) =
     \<lparr>globals = \<lparr>message_queue = [], is_forwarding = False, last_forward_time = 1000\<rparr>,
      tasks = [Finished],
      trace = [Sleep 120, Send_message 1 (ascii ''first''), Log_info (Forwarded 1), Sleep 1,
               Sleep 120, Send_message 1 (ascii ''second''), Log_info (Forwarded 1), Sleep 1]\<rparr>"
proof -
  have h1: "0 < length (tasks draining)" by (simp add: draining_def)
  have h2: "tasks draining ! 0 = Drain At_while" by (simp add: draining_def)
  note h = drain_loop_delivers_in_order [OF h1 h2, of demo_config "\<lambda>k. all_delivered" all_delivered]
  have len: "length (message_queue (globals draining)) = 2" by (simp add: draining_def)
  have d: "deliveries demo_config (\<lambda>k. all_delivered) (message_queue (globals draining)) =
      [Sleep 120, Send_message 1 (ascii ''first''), Log_info (Forwarded 1), Sleep 1,
       Sleep 120, Send_message 1 (ascii ''second''), Log_info (Forwarded 1), Sleep 1]"
    by (simp add: deliveries_def draining_def forward_to_targets_def demo_config_def
        all_delivered_def)
  have a: "process_queue demo_config (\<lambda>k. all_delivered) (globals draining) =
     Inr (\<lparr>message_queue = [], is_forwarding = False, last_forward_time = 1000\<rparr>,
          [Sleep 120, Send_message 1 (ascii ''first''), Log_info (Forwarded 1), Sleep 1,
           Sleep 120, Send_message 1 (ascii ''second''), Log_info (Forwarded 1), Sleep 1])"
    using h [THEN conjunct1] unfolding d by (simp add: draining_def)
  have b: "run demo_config draining
       (drain_events 0 (\<lambda>k. all_delivered) 2 @ [Resume 0 all_delivered]) =
     \<lparr>globals = \<lparr>message_queue = [], is_forwarding = False, last_forward_time = 1000\<rparr>,
      tasks = [Finished],
      trace = [Sleep 120, Send_message 1 (ascii ''first''), Log_info (Forwarded 1), Sleep 1,
               Sleep 120, Send_message 1 (ascii ''second''), Log_info (Forwarded 1), Sleep 1]\<rparr>"
    using h [THEN conjunct2, THEN conjunct2] unfolding d len by (simp add: draining_def)
  from h1 h2 a b show ?thesis by (intro conjI)
qed

section \<open>Two drain loops\<close>

text \<open>
  C5 does not hold of the code. Whenever the handler relays at once it ends with
  \<open>create_task(process_queue())\<close>, also when \<open>is_forwarding\<close> is already true, which is the
  case when the drain task of the episode is asleep and more than \<open>rate_limit\<close> seconds
  have passed. In the schedule below the episode has one drain task, asleep, and one
  queued record. The message at time 1070 is relayed at once and its handler starts a
  second drain task: two are alive. Both see the one queued record and sleep; the first to
  wake takes it, the second wakes on an empty deque and its \<open>popleft\<close> raises
  \<open>IndexError\<close>.
\<close>

theorem second_drain_loop_is_started:
  "run demo_config initial_system episode_start =
     \<lparr>globals = \<lparr>message_queue = [small_output], is_forwarding = True, last_forward_time = 1000\<rparr>,
      tasks = [Finished, Drain At_popleft],
      trace = [Send_message 1 small_output, Log_info (Forwarded 1), Sleep 1, Create_task,
               Log_info (Queued 1), Sleep 120]\<rparr> \<and>
   run demo_config initial_system (episode_start @ late_message) =
     \<lparr>globals = \<lparr>message_queue = [small_output], is_forwarding = True, last_forward_time = 1070\<rparr>,
      tasks = [Finished, Drain At_popleft, Finished, Drain At_while],
      trace = [Send_message 1 small_output, Log_info (Forwarded 1), Sleep 1, Create_task,
               Log_info (Queued 1), Sleep 120,
               Send_message 1 small_output, Log_info (Forwarded 1), Sleep 1, Create_task]\<rparr> \<and>
   active_drains (run demo_config initial_system (episode_start @ late_message)) = 2 \<and>
   tasks (run demo_config initial_system (episode_start @ late_message @ both_wake)) =
     [Finished, Finished, Finished, Raised IndexError]"
proof -
  have e1: "run demo_config initial_system episode_start =
     \<lparr>globals = \<lparr>message_queue = [small_output], is_forwarding = True, last_forward_time = 1000\<rparr>,
      tasks = [Finished, Drain At_popleft],
      trace = [Send_message 1 small_output, Log_info (Forwarded 1), Sleep 1, Create_task,
               Log_info (Queued 1), Sleep 120]\<rparr>"
    by (simp add: episode_start_def run_defs)
  have e2: "run demo_config initial_system (episode_start @ late_message) =
     \<lparr>globals = \<lparr>message_queue = [small_output], is_forwarding = True, last_forward_time = 1070\<rparr>,
      tasks = [Finished, Drain At_popleft, Finished, Drain At_while],
      trace = [Send_message 1 small_output, Log_info (Forwarded 1), Sleep 1, Create_task,
               Log_info (Queued 1), Sleep 120,
               Send_message 1 small_output, Log_info (Forwarded 1), Sleep 1, Create_task]\<rparr>"
    by (simp add: run_append e1) (simp add: late_message_def run_defs)
  have e3: "tasks (run demo_config initial_system (episode_start @ late_message @ both_wake)) =
     [Finished, Finished, Finished, Raised IndexError]"
    by (simp add: run_append e2 [unfolded run_append]) (simp add: both_wake_def run_defs)
  have n: "active_drains (run demo_config initial_system (episode_start @ late_message)) = 2"
    unfolding e2 by (simp add: active_drains_def)
  from e1 e2 n e3 show ?thesis by (intro conjI)
qed

lemma parse_second_message: "parse_and_format_message second_message = Some second_output"
  by (simp add: second_message_def second_output_def parser_defs)

lemma no_link_second_message: "\<not> has_link second_message"
  by (simp add: has_link_def second_message_def ascii_def plus_minus_def gift_def)

lemma second_output_not_Nil: "second_output \<noteq> []"
  by (simp add: second_output_def)

lemmas race_defs = run_defs parse_second_message no_link_second_message second_output_not_Nil

text \<open>
  C3 does not hold of the code, for the reason C5 does not: a second drain loop. Here two
  records are queued in the episode, the second while its drain task sleeps. The message
  at time 1070 is relayed at once and its handler starts a second drain task. The
  episode's drain task relays the first record and sleeps again; the second drain task
  wakes first, relays the second record, finds the queue empty, clears \<open>is_forwarding\<close>
  and ends. The episode's drain task then wakes on an empty deque and \<open>popleft\<close> raises
  \<open>IndexError\<close>: it has relayed one of the two records, the other was relayed by the
  second drain task after that task's own sleep, and it neither clears the flag nor
  returns.
\<close>

theorem drain_loop_loses_a_record:
  "run demo_config initial_system episode_with_arrival =
     \<lparr>globals = \<lparr>message_queue = [small_output, second_output], is_forwarding = True,
                 last_forward_time = 1000\<rparr>,
      tasks = [Finished, Drain At_popleft],
      trace = [Send_message 1 small_output, Log_info (Forwarded 1), Sleep 1, Create_task,
               Log_info (Queued 1), Sleep 120, Log_info (Queued 2)]\<rparr> \<and>
   run demo_config initial_system (episode_with_arrival @ late_message) =
     \<lparr>globals = \<lparr>message_queue = [small_output, second_output], is_forwarding = True,
                 last_forward_time = 1070\<rparr>,
      tasks = [Finished, Drain At_popleft, Finished, Drain At_while],
      trace = [Send_message 1 small_output, Log_info (Forwarded 1), Sleep 1, Create_task,
               Log_info (Queued 1), Sleep 120, Log_info (Queued 2),
               Send_message 1 small_output, Log_info (Forwarded 1), Sleep 1, Create_task]\<rparr> \<and>
   run demo_config initial_system
       (episode_with_arrival @ late_message @ first_drain_round) =
     \<lparr>globals = \<lparr>message_queue = [second_output], is_forwarding = True,
                 last_forward_time = 1070\<rparr>,
      tasks = [Finished, Drain At_popleft, Finished, Drain At_popleft],
      trace = [Send_message 1 small_output, Log_info (Forwarded 1), Sleep 1, Create_task,
               Log_info (Queued 1), Sleep 120, Log_info (Queued 2),
               Send_message 1 small_output, Log_info (Forwarded 1), Sleep 1, Create_task,
               Sleep 120,
               Send_message 1 small_output, Log_info (Forwarded 1), Sleep 1,
               Sleep 120]\<rparr> \<and>
   run demo_config initial_system
       (episode_with_arrival @ late_message @ first_drain_round @ second_drain_round) =
     \<lparr>globals = \<lparr>message_queue = [], is_forwarding = False, last_forward_time = 1070\<rparr>,
      tasks = [Finished, Raised IndexError, Finished, Finished],
      trace = [Send_message 1 small_output, Log_info (Forwarded 1), Sleep 1, Create_task,
               Log_info (Queued 1), Sleep 120, Log_info (Queued 2),
               Send_message 1 small_output, Log_info (Forwarded 1), Sleep 1, Create_task,
               Sleep 120,
               Send_message 1 small_output, Log_info (Forwarded 1), Sleep 1,
               Sleep 120,
               Send_message 1 second_output, Log_info (Forwarded 1), Sleep 1]\<rparr>"
proof -
  have r1: "run demo_config initial_system episode_with_arrival =
     \<lparr>globals = \<lparr>message_queue = [small_output, second_output], is_forwarding = True,
                 last_forward_time = 1000\<rparr>,
      tasks = [Finished, Drain At_popleft],
      trace = [Send_message 1 small_output, Log_info (Forwarded 1), Sleep 1, Create_task,
               Log_info (Queued 1), Sleep 120, Log_info (Queued 2)]\<rparr>"
    by (simp add: episode_with_arrival_def race_defs)
  have r2: "run demo_config initial_system (episode_with_arrival @ late_message) =
     \<lparr>globals = \<lparr>message_queue = [small_output, second_output], is_forwarding = True,
                 last_forward_time = 1070\<rparr>,
      tasks = [Finished, Drain At_popleft, Finished, Drain At_while],
      trace = [Send_message 1 small_output, Log_info (Forwarded 1), Sleep 1, Create_task,
               Log_info (Queued 1), Sleep 120, Log_info (Queued 2),
               Send_message 1 small_output, Log_info (Forwarded 1), Sleep 1, Create_task]\<rparr>"
    by (simp add: run_append r1) (simp add: late_message_def race_defs)
  have r3: "run demo_config initial_system
       (episode_with_arrival @ late_message @ first_drain_round) =
     \<lparr>globals = \<lparr>message_queue = [second_output], is_forwarding = True,
                 last_forward_time = 1070\<rparr>,
      tasks = [Finished, Drain At_popleft, Finished, Drain At_popleft],
      trace = [Send_message 1 small_output, Log_info (Forwarded 1), Sleep 1, Create_task,
               Log_info (Queued 1), Sleep 120, Log_info (Queued 2),
               Send_message 1 small_output, Log_info (Forwarded 1), Sleep 1, Create_task,
               Sleep 120,
               Send_message 1 small_output, Log_info (Forwarded 1), Sleep 1,
               Sleep 120]\<rparr>"
    by (simp add: run_append r2 [unfolded run_append]) (simp add: first_drain_round_def race_defs)
  have r4: "run demo_config initial_system
       (episode_with_arrival @ late_message @ first_drain_round @ second_drain_round) =
     \<lparr>globals = \<lparr>message_queue = [], is_forwarding = False, last_forward_time = 1070\<rparr>,
      tasks = [Finished, Raised IndexError, Finished, Finished],
      trace = [Send_message 1 small_output, Log_info (Forwarded 1), Sleep 1, Create_task,
               Log_info (Queued 1), Sleep 120, Log_info (Queued 2),
               Send_message 1 small_output, Log_info (Forwarded 1), Sleep 1, Create_task,
               Sleep 120,
               Send_message 1 small_output, Log_info (Forwarded 1), Sleep 1,
               Sleep 120,
               Send_message 1 second_output, Log_info (Forwarded 1), Sleep 1]\<rparr>"
    by (simp add: run_append r3 [unfolded run_append]) (simp add: second_drain_round_def race_defs)
  from r1 r2 r3 r4 show ?thesis by (intro conjI)
qed

section \<open>The amount is copied as it stands\<close>

lemma backtrack_first: "lo \<le> hi \<Longrightarrow> f hi = Some r \<Longrightarrow> backtrack f lo hi = Some r"
  by (cases hi) auto

lemma match_item_greedy:
  assumes "min_count (item_quant it) \<le> n" and "n = max_count (item_class it) (item_quant it) s"
    and "k (drop n s) = Some (gs, rest)"
  shows "match_item it k s = Some (if is_group it then take n s # gs else gs, rest)"
  unfolding match_item_def using assms by (intro backtrack_first) simp_all

lemma takeWhile_run:
  "list_all P a \<Longrightarrow> t = [] \<or> \<not> P (hd t) \<Longrightarrow> takeWhile P (a @ t) = a"
  by (cases t) (auto simp: list_all_iff takeWhile_append2)

lemma uni_decimal_bounds:
  "uni_decimal c \<Longrightarrow> (48 \<le> c \<and> c \<le> 57) \<or> (1632 \<le> c \<and> c \<le> 4249) \<or> (6112 \<le> c \<and> c \<le> 7257) \<or> 42528 \<le> c"
  unfolding uni_decimal_def decimal_zeros_def by (simp only: list_ex_Cons_iff list_ex_Nil_iff) arith

lemma digit_or_dot_plain:
  assumes "uni_decimal c \<or> c = 46"
  shows "\<not> uni_space c" and "c \<noteq> 10" and "c \<noteq> 60"
  using assms uni_decimal_bounds [of c] by (auto simp: uni_space_def)


lemma re_match_tag_other: "c \<noteq> 60 \<Longrightarrow> re_match tag_re (c # cs) = None"
  by (simp add: tag_re_def match_item_def)

lemma re_sub_empty_no_tag: "60 \<notin> set s \<Longrightarrow> re_sub_empty tag_re s = s"
  by (induction s) (simp_all add: re_match_tag_other)

lemma split_nl_line: "10 \<notin> set u \<Longrightarrow> split_nl (u @ 10 # v) = u # split_nl v"
  by (induction u) (auto split: list.splits)

lemma strip_plain:
  assumes "s \<noteq> []" and "\<not> uni_space (hd s)" and "\<not> uni_space (last s)"
  shows "strip s = s"
proof -
  from assms(1,2) have 1: "dropWhile uni_space s = s" by (cases s) simp_all
  from assms(1,3) have 2: "dropWhile uni_space (rev s) = rev s"
    by (cases "rev s") (simp_all add: hd_rev [symmetric])
  show ?thesis by (simp add: strip_def 1 2)
qed


lemma re_match_Cons: "re_match (it # p) s = match_item it (re_match p) s"
  by simp

lemma match_group_plus:
  assumes "u \<noteq> []" and "takeWhile (in_class k) (u @ v) = u" and "K v = Some (gs, rest)"
  shows "match_item (Group k Plus) K (u @ v) = Some (u # gs, rest)"
proof -
  have "match_item (Group k Plus) K (u @ v) =
      Some (if is_group (Group k Plus) then take (length u) (u @ v) # gs else gs, rest)"
    by (rule match_item_greedy) (use assms in \<open>simp_all add: Suc_le_eq\<close>)
  then show ?thesis by simp
qed

lemma match_atom_star:
  assumes "takeWhile (in_class k) (u @ v) = u" and "K v = Some (gs, rest)"
  shows "match_item (Atom k Star) K (u @ v) = Some (gs, rest)"
proof -
  have "match_item (Atom k Star) K (u @ v) =
      Some (if is_group (Atom k Star) then take (length u) (u @ v) # gs else gs, rest)"
    by (rule match_item_greedy) (use assms in simp_all)
  then show ?thesis by simp
qed

lemma match_atom_once:
  assumes "in_class k c" and "K s = Some (gs, rest)"
  shows "match_item (Atom k Once) K (c # s) = Some (gs, rest)"
proof -
  have "match_item (Atom k Once) K (c # s) =
      Some (if is_group (Atom k Once) then take 1 (c # s) # gs else gs, rest)"
    by (rule match_item_greedy) (use assms in simp_all)
  then show ?thesis by simp
qed

lemma tail_match:
  "re_match [Atom Space Star, Group (Union [Range 65 90, Range 97 122, Range 48 57]) Plus]
     (ascii '' BNB'') = Some ([ascii ''BNB''], [])"
  by (simp add: match_item_def ascii_def uni_space_def)

lemma amount_match:
  assumes "a \<noteq> []" and "list_all (\<lambda>c. uni_decimal c \<or> c = 46) a"
  shows "re_match amount_re (plus_minus # 32 # a @ ascii '' BNB'') =
           Some ([a, ascii ''BNB''], [])"
proof -
  let ?alnum = "Union [Range 65 90, Range 97 122, Range 48 57]"
  let ?digdot = "Union [Digit, Lit 46]"
  let ?t = "ascii '' BNB''"
  have plain: "\<not> uni_space (hd a)"
    using assms digit_or_dot_plain(1) [of "hd a"] by (cases a) simp_all
  have "list_all (in_class ?digdot) a" using assms(2) by (simp add: list_all_iff)
  moreover have "?t = [] \<or> \<not> in_class ?digdot (hd ?t)"
    by (simp add: ascii_def uni_decimal_def decimal_zeros_def)
  ultimately have tw3: "takeWhile (in_class ?digdot) (a @ ?t) = a" by (rule takeWhile_run)
  have 3: "re_match [Group ?digdot Plus, Atom Space Star, Group ?alnum Plus] (a @ ?t) =
      Some ([a, ascii ''BNB''], [])"
    by (subst re_match_Cons) (rule match_group_plus, rule assms(1), rule tw3, rule tail_match)
  have "list_all (in_class Space) [32]" by (simp add: uni_space_def)
  moreover have "a @ ?t = [] \<or> \<not> in_class Space (hd (a @ ?t))"
    using assms(1) plain by simp
  ultimately have tw2: "takeWhile (in_class Space) ([32] @ a @ ?t) = [32]"
    by (rule takeWhile_run)
  have 2: "re_match [Atom Space Star, Group ?digdot Plus, Atom Space Star, Group ?alnum Plus]
      ([32] @ a @ ?t) = Some ([a, ascii ''BNB''], [])"
    by (subst re_match_Cons) (rule match_atom_star, rule tw2, rule 3)
  have 1: "re_match (Atom (Lit plus_minus) Once #
        [Atom Space Star, Group ?digdot Plus, Atom Space Star, Group ?alnum Plus])
      (plus_minus # [32] @ a @ ?t) = Some ([a, ascii ''BNB''], [])"
    by (subst re_match_Cons) (rule match_atom_once, simp, rule 2)
  then show ?thesis by (simp only: amount_re_def append_Cons append_Nil)
qed

text \<open>
  C10. The amount is any non-empty run of digits and dots: a message whose first line is
  the plus-minus sign, a space, such a run and \<open>BNB\<close> is accepted, and the run stands in
  the output as it was. The witness has the amounts \<open>1.2..3\<close> and \<open>...\<close>, neither of them
  a number.
\<close>

theorem amount_is_not_validated:
  assumes "a \<noteq> []" and "list_all (\<lambda>c. uni_decimal c \<or> c = 46) a"
  shows "parse_and_format_message
           ([plus_minus, 32] @ a @ ascii '' BNB'' @ [10] @
            ascii ''Claimed: 1 / 2'' @ [10] @
            [gift] @ ascii '' X'') =
         Some ([gift] @ ascii '' Code: X'' @ [10] @
               [money_bag] @ ascii '' Amount: '' @ a @ ascii '' BNB'' @ [10] @
               [red_envelope] @ ascii '' Progress: 1 / 2'' @ [10] @
               [10] @
               ascii ''#Binance #RedPacketHub'')"
proof -
  define l1 where "l1 = plus_minus # 32 # a @ ascii '' BNB''"
  define l2 where "l2 = ascii ''Claimed: 1 / 2''"
  define l3 where "l3 = gift # ascii '' X''"
  define inp where "inp = l1 @ 10 # l2 @ 10 # l3"
  have chars: "\<not> uni_space c \<and> c \<noteq> 10 \<and> c \<noteq> 60" if "c \<in> set a" for c
    using assms(2) that digit_or_dot_plain [of c] by (simp add: list_all_iff)
  have "60 \<notin> set inp"
    using chars by (auto simp: inp_def l1_def l2_def l3_def ascii_def plus_minus_def gift_def)
  then have sub: "re_sub_empty tag_re inp = inp" by (rule re_sub_empty_no_tag)
  have "10 \<notin> set l1"
    using chars by (auto simp: l1_def ascii_def plus_minus_def)
  then have "split_nl inp = l1 # split_nl (l2 @ 10 # l3)"
    unfolding inp_def by (rule split_nl_line)
  moreover have "split_nl (l2 @ 10 # l3) = [l2, l3]"
    by (simp add: l2_def l3_def ascii_def gift_def)
  ultimately have split: "split_nl inp = [l1, l2, l3]" by simp
  have s1: "strip l1 = l1"
    by (rule strip_plain) (simp_all add: l1_def ascii_def uni_space_def plus_minus_def)
  have s2: "strip l2 = l2" by (simp add: l2_def strip_def ascii_def uni_space_def)
  have s3: "strip l3 = l3" by (simp add: l3_def strip_def ascii_def uni_space_def gift_def)
  have ne: "l1 \<noteq> []" "l2 \<noteq> []" "l3 \<noteq> []"
    by (simp_all add: l1_def l2_def l3_def ascii_def)
  have lines: "message_lines inp = [l1, l2, l3]"
    by (simp add: message_lines_def split s1 s2 s3 ne)
  have m1: "re_search amount_re l1 = Some ([a, ascii ''BNB''], [])"
    unfolding l1_def by (simp add: amount_match [OF assms])
  have m2: "re_search claim_re l2 = Some ([ascii ''1'', ascii ''2''], [])"
    by (simp add: l2_def claim_re_def lits_def match_item_def ascii_def uni_space_def
        uni_decimal_def decimal_zeros_def)
  have m3: "re_search code_re l3 = Some ([ascii ''X''], [])"
    by (simp add: l3_def code_re_def match_item_def ascii_def uni_space_def gift_def)
  have "parse_and_format_message inp =
      Some (format \<lparr>code = ascii ''X'', amount = a, token = ascii ''BNB'',
                     claimed = ascii ''1'', total = ascii ''2''\<rparr>)"
    by (simp add: parse_and_format_message_def extract_fields_def Let_def sub lines m1 m2 m3
        group_def)
  moreover have "[plus_minus, 32] @ a @ ascii '' BNB'' @ [10] @
      ascii ''Claimed: 1 / 2'' @ [10] @ [gift] @ ascii '' X'' = inp"
    by (simp add: inp_def l1_def l2_def l3_def)
  ultimately show ?thesis by (simp add: format_def ascii_def)
qed

theorem amount_is_not_validated_witness:
  "ascii ''1.2..3'' \<noteq> [] \<and>
   list_all (\<lambda>c. uni_decimal c \<or> c = 46) (ascii ''1.2..3'') \<and>
   parse_and_format_message
     ([plus_minus, 32] @ ascii ''1.2..3'' @ ascii '' BNB'' @ [10] @
      ascii ''Claimed: 1 / 2'' @ [10] @
      [gift] @ ascii '' X'') =
   Some ([gift] @ ascii '' Code: X'' @ [10] @
         [money_bag] @ ascii '' Amount: '' @ ascii ''1.2..3'' @ ascii '' BNB'' @ [10] @
         [red_envelope] @ ascii '' Progress: 1 / 2'' @ [10] @
         [10] @
         ascii ''#Binance #RedPacketHub'') \<and>
   list_all (\<lambda>c. uni_decimal c \<or> c = 46) (ascii ''...'') \<and>
   parse_and_format_message
     ([plus_minus, 32] @ ascii ''...'' @ ascii '' BNB'' @ [10] @
      ascii ''Claimed: 1 / 2'' @ [10] @
      [gift] @ ascii '' X'') =
   Some ([gift] @ ascii '' Code: X'' @ [10] @
         [money_bag] @ ascii '' Amount: '' @ ascii ''...'' @ ascii '' BNB'' @ [10] @
         [red_envelope] @ ascii '' Progress: 1 / 2'' @ [10] @
         [10] @
         ascii ''#Binance #RedPacketHub'')"
proof -
  have n1: "ascii ''1.2..3'' \<noteq> []" by (simp add: ascii_def)
  have d1: "list_all (\<lambda>c. uni_decimal c \<or> c = 46) (ascii ''1.2..3'')"
    by (simp add: ascii_def uni_decimal_def decimal_zeros_def)
  have n2: "ascii ''...'' \<noteq> []" by (simp add: ascii_def)
  have d2: "list_all (\<lambda>c. uni_decimal c \<or> c = 46) (ascii ''...'')"
    by (simp add: ascii_def)
  from n1 d1 amount_is_not_validated [OF n1 d1] d2 amount_is_not_validated [OF n2 d2]
  show ?thesis by (intro conjI)
qed

end
